theory Spec2Isabelle
  imports Main "HOL-Library.Char_ord" "HOL-Library.List_Lexorder"
begin

section \<open>Strings, errors and documents\<close>

text \<open>
  A shallow embedding of \<^verbatim>\<open>mimesis/utils.py\<close>. Python strings are modelled as
  \<^typ>\<open>string\<close> (ASCII; locale codes, gender tokens, digit strings and file names are
  ASCII). Every exception the module can raise is a value of \<open>error\<close>; a function
  that can raise returns \<open>error + 'a\<close> with \<open>Inl\<close> for the exception.
\<close>

datatype io_error = FileNotFoundError | JSONDecodeError | OtherIOError

datatype error =
    UnsupportedLocale string
  | UnexpectedGender string
  | TypeError
  | AttributeError
  | ValueError
  | KeyError string
  | LoaderError io_error
  | TransferError string

text \<open>\<^verbatim>\<open>str.lower()\<close> on ASCII: the letters A..Z move to a..z, every other character stays.\<close>

definition lower_char :: "char \<Rightarrow> char" where
  "lower_char c =
     (let n = of_char c :: nat in if 65 \<le> n \<and> n \<le> 90 then char_of (n + 32) else c)"

definition lower :: "string \<Rightarrow> string" where
  "lower s = map lower_char s"

text \<open>\<^verbatim>\<open>str(n)\<close> for an integer: its decimal digits, with a minus sign when negative.\<close>

definition digit_char :: "nat \<Rightarrow> char" where
  "digit_char d = char_of (48 + d)"

fun str_nat :: "nat \<Rightarrow> string" where
  "str_nat n = (if n < 10 then [digit_char n] else str_nat (n div 10) @ [digit_char (n mod 10)])"

declare str_nat.simps [simp del]

definition str_int :: "int \<Rightarrow> string" where
  "str_int i = (if i < 0 then CHR ''-'' # str_nat (nat (- i)) else str_nat (nat i))"

text \<open>\<^verbatim>\<open>int(s)\<close> for a one-character string: the digit's value, ValueError otherwise.\<close>

definition is_digit :: "char \<Rightarrow> bool" where
  "is_digit c = (let n = of_char c :: nat in 48 \<le> n \<and> n \<le> 57)"

definition int_of_char :: "char \<Rightarrow> error + int" where
  "int_of_char c = (if is_digit c then Inr (int (of_char c) - 48) else Inl ValueError)"

text \<open>\<^verbatim>\<open>sep.join(xs)\<close>.\<close>

fun join :: "string \<Rightarrow> string list \<Rightarrow> string" where
  "join sep [] = []"
| "join sep [x] = x"
| "join sep (x # y # xs) = x @ sep @ join sep (y # xs)"

text \<open>
  A parsed JSON document, as \<^verbatim>\<open>json.load\<close> returns it. A mapping is an association
  list in insertion order, as a Python dict keeps its keys; numbers are integers.
\<close>

datatype json =
    JNull
  | JBool bool
  | JNum int
  | JStr string
  | JList "json list"
  | JDict "(string \<times> json) list"

fun is_JDict :: "json \<Rightarrow> bool" where
  "is_JDict (JDict kvs) = True"
| "is_JDict j = False"

text \<open>
  \<^verbatim>\<open>d[key] = v\<close> on a dict: an existing key keeps its position and takes the new
  value, a new key goes to the end.
\<close>

fun dict_set :: "(string \<times> 'v) list \<Rightarrow> string \<Rightarrow> 'v \<Rightarrow> (string \<times> 'v) list" where
  "dict_set [] key v = [(key, v)]"
| "dict_set ((k, x) # items) key v =
     (if k = key then (k, v) # items else (k, x) # dict_set items key v)"

section \<open>locale\_info\<close>

text \<open>
  \<^verbatim>\<open>settings.SUPPORTED_LOCALES\<close> is not part of the module: it is a parameter, a
  dict from locale code to a dict of metadata.
\<close>

type_synonym locales = "string \<rightharpoonup> (string \<rightharpoonup> string)"

definition unsupported_msg :: "string \<Rightarrow> string" where
  "unsupported_msg locale = ''Locale '' @ locale @ '' is not supported''"

definition locale_info :: "locales \<Rightarrow> string \<Rightarrow> error + string" where
  "locale_info supported locale0 =
     (let locale = lower locale0 in
      case supported locale of
        None \<Rightarrow> Inl (UnsupportedLocale (unsupported_msg locale))
      | Some meta \<Rightarrow>
          (case meta ''name'' of
             None \<Rightarrow> Inl (KeyError ''name'')
           | Some name \<Rightarrow> Inr name))"

section \<open>luhn\_checksum\<close>

text \<open>
  The loop \<^verbatim>\<open>for i, s in enumerate(reversed([x for x in num]))\<close> with its
  accumulator \<^verbatim>\<open>check\<close>; \<^verbatim>\<open>int(s)\<close> raises ValueError on a character that
  is not a digit.
\<close>

fun luhn_loop :: "int \<Rightarrow> (nat \<times> char) list \<Rightarrow> error + int" where
  "luhn_loop check [] = Inr check"
| "luhn_loop check ((i, s) # rest) =
     (case int_of_char s of
        Inl e \<Rightarrow> Inl e
      | Inr sx0 \<Rightarrow>
          (let sx1 = (if i mod 2 = 0 then sx0 * 2 else sx0);
               sx2 = (if sx1 > 9 then sx1 - 9 else sx1)
           in luhn_loop (check + sx2) rest))"

definition luhn_checksum :: "string \<Rightarrow> error + string" where
  "luhn_checksum num =
     (case luhn_loop 0 (enumerate 0 (rev num)) of
        Inl e \<Rightarrow> Inl e
      | Inr check \<Rightarrow> Inr (str_int (check * 9 mod 10)))"

text \<open>
  The checksum as the specification words it: over the digits from the least significant
  one, the digit at an even position is doubled and, when the double exceeds 9, reduced
  by 9; the check digit is nine times the sum, modulo 10.
\<close>

definition spec_luhn_term :: "nat \<Rightarrow> int \<Rightarrow> int" where
  "spec_luhn_term i d = (if even i then (if 2 * d > 9 then 2 * d - 9 else 2 * d) else d)"

definition digit_value :: "char \<Rightarrow> int" where
  "digit_value c = int (of_char c) - 48"

definition spec_luhn_sum :: "string \<Rightarrow> int" where
  "spec_luhn_sum num =
     (let ds = rev (map digit_value num)
      in (\<Sum>i < length ds. spec_luhn_term i (ds ! i)))"

definition spec_checksum :: "string \<Rightarrow> string" where
  "spec_checksum num = [digit_char (nat (spec_luhn_sum num * 9 mod 10))]"

section \<open>check\_gender\<close>

text \<open>
  The argument is \<^verbatim>\<open>None\<close>, an integer or a string; the default is the integer 0.
  \<^verbatim>\<open>choice([f, m])\<close> draws an index below 2: the draw is the parameter \<open>rnd\<close>,
  \<open>False\<close> for index 0 and \<open>True\<close> for index 1.
\<close>

datatype gender = GNone | GInt int | GStr string

fun str_gender :: "gender \<Rightarrow> string" where
  "str_gender GNone = ''None''"
| "str_gender (GInt i) = str_int i"
| "str_gender (GStr s) = s"

definition choice2 :: "bool \<Rightarrow> 'a \<Rightarrow> 'a \<Rightarrow> 'a" where
  "choice2 rnd x y = (if rnd then y else x)"

definition gender_options :: "string \<Rightarrow> (string \<times> string) list" where
  "gender_options o' =
     [(''0'', o'), (''9'', o'),
      (''1'', ''male''), (''2'', ''female''),
      (''f'', ''female''), (''m'', ''male''),
      (''female'', ''female''), (''male'', ''male'')]"

definition check_gender :: "bool \<Rightarrow> gender \<Rightarrow> error + string" where
  "check_gender rnd gender0 =
     (let o' = choice2 rnd ''female'' ''male'';
          options = gender_options o'
      in if gender0 = GNone then Inr o'
         else
           (let supported = sort (map fst options);
                gender = lower (str_gender gender0)
            in if gender \<notin> set supported
               then Inl (UnexpectedGender (''Gender must be '' @ join '', '' supported @ ''.''))
               else (case map_of options gender of
                       None \<Rightarrow> Inl (KeyError gender)
                     | Some g \<Rightarrow> Inr g)))"

definition check_gender_default :: "bool \<Rightarrow> error + string" where
  "check_gender_default rnd = check_gender rnd (GInt 0)"

section \<open>download\_image\<close>

text \<open>
  \<^verbatim>\<open>urllib.request.urlretrieve\<close> is the network: a parameter that, for a URL and a
  target file name, fails or succeeds. The state records the process-wide TLS default
  and every transfer attempted. The \<open>url\<close> argument is \<^verbatim>\<open>None\<close> or a string;
  its default is the empty string.
\<close>

record net_state =
  unverified_context :: bool
  transfers :: "(string \<times> string) list"

type_synonym network = "string \<Rightarrow> string \<Rightarrow> error + unit"

text \<open>\<^verbatim>\<open>url.rsplit('/')[-1]\<close>: what follows the last slash.\<close>

definition last_segment :: "string \<Rightarrow> string" where
  "last_segment url = rev (takeWhile (\<lambda>c. c \<noteq> CHR ''/'') (rev url))"

definition download_image ::
  "network \<Rightarrow> string option \<Rightarrow> string \<Rightarrow> bool \<Rightarrow> net_state \<Rightarrow> (error + string option) \<times> net_state" where
  "download_image urlretrieve url save_path unverified_ctx s =
     (let s1 = (if unverified_ctx then s\<lparr>unverified_context := True\<rparr> else s)
      in case url of
           Some u \<Rightarrow>
             (let image_name = last_segment u;
                  s2 = s1\<lparr>transfers := transfers s1 @ [(u, save_path @ image_name)]\<rparr>
              in case urlretrieve u (save_path @ image_name) of
                   Inl e \<Rightarrow> (Inl e, s2)
                 | Inr _ \<Rightarrow> (Inr (Some image_name), s2))
         | None \<Rightarrow> (Inr None, s1))"

definition download_image_default :: "network \<Rightarrow> net_state \<Rightarrow> (error + string option) \<times> net_state" where
  "download_image_default urlretrieve s = download_image urlretrieve (Some []) [] False s"

section \<open>update\_dict on documents\<close>

text \<open>
  \<^verbatim>\<open>update_dict(initial, other)\<close> read on values: the loop over
  \<^verbatim>\<open>other.items()\<close> is \<open>update_items\<close>, whose first argument is the current
  content of \<^verbatim>\<open>initial\<close>. On an \<^verbatim>\<open>initial\<close> that is not a dict,
  \<^verbatim>\<open>initial.get(key, {})\<close> raises AttributeError and \<^verbatim>\<open>initial[key] = ...\<close>
  raises TypeError; \<^verbatim>\<open>other.items()\<close> raises AttributeError when \<^verbatim>\<open>other\<close> is
  not a dict. An \<^verbatim>\<open>initial\<close> that is not a dict is returned as it is when
  \<^verbatim>\<open>other\<close> has no key. (\<^verbatim>\<open>isinstance(value, collections.Mapping)\<close> holds of the
  dicts of a parsed document, in the Python versions the module was written for.)
\<close>

definition dict_get :: "(string \<times> json) list \<Rightarrow> string \<Rightarrow> json \<Rightarrow> json" where
  "dict_get items key dflt = (case map_of items key of None \<Rightarrow> dflt | Some v \<Rightarrow> v)"

function update_items :: "json \<Rightarrow> (string \<times> json) list \<Rightarrow> error + json" where
  "update_items initial [] = Inr initial"
| "update_items initial ((key, value) # rest) =
     (case value of
        JDict sub \<Rightarrow>
          (case initial of
             JDict items \<Rightarrow>
               (case update_items (dict_get items key (JDict [])) sub of
                  Inl e \<Rightarrow> Inl e
                | Inr r \<Rightarrow> update_items (JDict (dict_set items key r)) rest)
           | _ \<Rightarrow> Inl AttributeError)
      | _ \<Rightarrow>
          (case initial of
             JDict items \<Rightarrow> update_items (JDict (dict_set items key value)) rest
           | _ \<Rightarrow> Inl TypeError))"
  by pat_completeness auto
termination
  by (relation "measure (\<lambda>(initial, other). size_list (size_prod (\<lambda>_. 0) size) other)") auto

definition update_dict :: "json \<Rightarrow> json \<Rightarrow> error + json" where
  "update_dict initial other =
     (case other of
        JDict kvs \<Rightarrow> update_items initial kvs
      | _ \<Rightarrow> Inl AttributeError)"

section \<open>The object store\<close>

text \<open>
  \<^verbatim>\<open>update_dict\<close> changes its first argument in place, and \<^verbatim>\<open>lru_cache\<close> keeps
  references to the documents \<^verbatim>\<open>pull\<close> returned. So the dicts that are changed or
  shared live in a store: a dict object has an address, and its values are references
  to other dict objects or immutable values. A value that the module never changes and
  never looks into (a scalar, or a sequence with all it holds) is kept as it was parsed.
  Allocation takes the next free address.
\<close>

type_synonym addr = nat

datatype pyval = Imm json | Ref addr

type_synonym pydict = "(string \<times> pyval) list"

record heap =
  objs :: "addr \<Rightarrow> pydict"
  next_addr :: addr

definition alloc :: "heap \<Rightarrow> pydict \<Rightarrow> addr \<times> heap" where
  "alloc h d = (next_addr h, h\<lparr>objs := (objs h)(next_addr h := d), next_addr := Suc (next_addr h)\<rparr>)"

definition set_item :: "heap \<Rightarrow> addr \<Rightarrow> string \<Rightarrow> pyval \<Rightarrow> heap" where
  "set_item h a key v = h\<lparr>objs := (objs h)(a := dict_set (objs h a) key v)\<rparr>"

text \<open>
  The objects \<^verbatim>\<open>json.load\<close> builds for a parsed document: one new dict object for
  every mapping on a path of mappings from the top.
\<close>

function load_val :: "heap \<Rightarrow> json \<Rightarrow> pyval \<times> heap"
  and load_items :: "heap \<Rightarrow> (string \<times> json) list \<Rightarrow> pydict \<times> heap" where
  "load_val h j =
     (case j of
        JDict kvs \<Rightarrow>
          (let (items, h1) = load_items h kvs;
               (a, h2) = alloc h1 items
           in (Ref a, h2))
      | _ \<Rightarrow> (Imm j, h))"
| "load_items h [] = ([], h)"
| "load_items h ((k, v) # kvs) =
     (let (pv, h1) = load_val h v;
          (items, h2) = load_items h1 kvs
      in ((k, pv) # items, h2))"
  by pat_completeness auto
termination
  by (relation "measure (\<lambda>x. case x of
        Inl (h, j) \<Rightarrow> size j
      | Inr (h, kvs) \<Rightarrow> size_list (size_prod (\<lambda>_. 0) size) kvs)") auto

text \<open>
  What a value of the store denotes: \<open>repr objs v j\<close> holds when \<open>v\<close> stands for the
  document \<open>j\<close>, and \<open>fp objs v j\<close> is the set of addresses of the dict objects it is
  made of. \<open>repr\<close> asks that no dict object occurs twice below \<open>v\<close>.
\<close>

function fp :: "(addr \<Rightarrow> pydict) \<Rightarrow> pyval \<Rightarrow> json \<Rightarrow> addr set"
  and fp_items :: "(addr \<Rightarrow> pydict) \<Rightarrow> pydict \<Rightarrow> (string \<times> json) list \<Rightarrow> addr set" where
  "fp os v j =
     (case (v, j) of
        (Ref a, JDict kvs) \<Rightarrow> insert a (fp_items os (os a) kvs)
      | _ \<Rightarrow> {})"
| "fp_items os items [] = {}"
| "fp_items os items ((k, j) # kvs) =
     (case items of
        [] \<Rightarrow> {}
      | (k', v) # items' \<Rightarrow> fp os v j \<union> fp_items os items' kvs)"
  by pat_completeness auto
termination
  by (relation "measure (\<lambda>x. case x of
        Inl (os, v, j) \<Rightarrow> size j
      | Inr (os, items, kvs) \<Rightarrow> size_list (size_prod (\<lambda>_. 0) size) kvs)") auto

function repr :: "(addr \<Rightarrow> pydict) \<Rightarrow> pyval \<Rightarrow> json \<Rightarrow> bool"
  and repr_items :: "(addr \<Rightarrow> pydict) \<Rightarrow> pydict \<Rightarrow> (string \<times> json) list \<Rightarrow> bool" where
  "repr os v j =
     (case (v, j) of
        (Ref a, JDict kvs) \<Rightarrow> a \<notin> fp_items os (os a) kvs \<and> repr_items os (os a) kvs
      | (Ref a, _) \<Rightarrow> False
      | (Imm i, JDict kvs) \<Rightarrow> False
      | (Imm i, _) \<Rightarrow> i = j)"
| "repr_items os items [] = (items = [])"
| "repr_items os items ((k, j) # kvs) =
     (case items of
        [] \<Rightarrow> False
      | (k', v) # items' \<Rightarrow>
          k' = k \<and> repr os v j \<and> repr_items os items' kvs
          \<and> fp os v j \<inter> fp_items os items' kvs = {})"
  by pat_completeness auto
termination
  by (relation "measure (\<lambda>x. case x of
        Inl (os, v, j) \<Rightarrow> size j
      | Inr (os, items, kvs) \<Rightarrow> size_list (size_prod (\<lambda>_. 0) size) kvs)") auto

section \<open>update\_dict in place\<close>

text \<open>
  \<^verbatim>\<open>update_dict(initial, other)\<close> as \<^verbatim>\<open>pull\<close> runs it: \<^verbatim>\<open>initial\<close> is a value
  of the store and is changed in place; \<^verbatim>\<open>other\<close> is only read (its dict values are
  walked through, its other values are stored as they are), so it is given as the parsed
  document. \<^verbatim>\<open>initial.get(key, {})\<close> makes a new empty dict when the key is missing.
  The result is the value and the store at the return or at the exception.
\<close>

function update_items_h :: "heap \<Rightarrow> pyval \<Rightarrow> (string \<times> json) list \<Rightarrow> (error + pyval) \<times> heap" where
  "update_items_h h initial [] = (Inr initial, h)"
| "update_items_h h initial ((key, value) # rest) =
     (case value of
        JDict sub \<Rightarrow>
          (case initial of
             Ref a \<Rightarrow>
               (let (arg, h0) =
                      (case map_of (objs h a) key of
                         Some v \<Rightarrow> (v, h)
                       | None \<Rightarrow> (let (b, h') = alloc h [] in (Ref b, h')))
                in case update_items_h h0 arg sub of
                     (Inl e, h1) \<Rightarrow> (Inl e, h1)
                   | (Inr r, h1) \<Rightarrow> update_items_h (set_item h1 a key r) initial rest)
           | Imm _ \<Rightarrow> (Inl AttributeError, h))
      | _ \<Rightarrow>
          (case initial of
             Ref a \<Rightarrow> update_items_h (set_item h a key (Imm value)) initial rest
           | Imm _ \<Rightarrow> (Inl TypeError, h)))"
  by pat_completeness auto
termination
  by (relation "measure (\<lambda>(h, initial, other). size_list (size_prod (\<lambda>_. 0) size) other)") auto

definition update_dict_h :: "heap \<Rightarrow> pyval \<Rightarrow> json \<Rightarrow> (error + pyval) \<times> heap" where
  "update_dict_h h initial other =
     (case other of
        JDict kvs \<Rightarrow> update_items_h h initial kvs
      | _ \<Rightarrow> (Inl AttributeError, h))"

section \<open>pull\<close>

text \<open>
  The environment of \<^verbatim>\<open>pull\<close>: the table \<^verbatim>\<open>settings.SUPPORTED_LOCALES\<close>, the
  directory \<^verbatim>\<open>PATH\<close>, and the files, given by what \<^verbatim>\<open>open\<close> and
  \<^verbatim>\<open>json.load\<close> yield for a path. The state is the object store, the dictionary of
  \<^verbatim>\<open>lru_cache\<close> (keyed by the arguments of the call as they were passed, the locale
  being absent when the default is used) and the list of the paths opened so far.
\<close>

record env =
  supported_locales :: locales
  data_root :: string
  files :: "string \<Rightarrow> io_error + json"

record state =
  heap :: heap
  cache :: "(string \<times> string option) \<rightharpoonup> pyval"
  opened :: "string list"

definition initial_state :: state where
  "initial_state = \<lparr>heap = \<lparr>objs = (\<lambda>_. []), next_addr = 0\<rparr>, cache = Map.empty, opened = []\<rparr>"

text \<open>\<^verbatim>\<open>os.path.join(a, b)\<close> on a POSIX system.\<close>

definition path_join :: "string \<Rightarrow> string \<Rightarrow> string" where
  "path_join a b =
     (if take 1 b = ''/'' then b
      else if a = [] \<or> take 1 (rev a) = ''/'' then a @ b
      else a @ ''/'' @ b)"

definition file_path :: "string \<Rightarrow> string \<Rightarrow> string \<Rightarrow> string" where
  "file_path root locale_name file = path_join (root @ ''/'' @ locale_name) file"

definition get_data :: "env \<Rightarrow> string \<Rightarrow> string \<Rightarrow> state \<Rightarrow> (error + json) \<times> state" where
  "get_data env file locale_name s =
     (let file_path = file_path (data_root env) locale_name file;
          s1 = s\<lparr>opened := opened s @ [file_path]\<rparr>
      in case files env file_path of
           Inl e \<Rightarrow> (Inl (LoaderError e), s1)
         | Inr doc \<Rightarrow> (Inr doc, s1))"

text \<open>\<^verbatim>\<open>locale.split('-')[0]\<close>.\<close>

definition master_of :: "string \<Rightarrow> string" where
  "master_of locale = takeWhile (\<lambda>c. c \<noteq> CHR ''-'') locale"

text \<open>The body of \<^verbatim>\<open>pull\<close>, run when the cache has no entry for the call.\<close>

definition pull_body :: "env \<Rightarrow> string \<Rightarrow> string \<Rightarrow> state \<Rightarrow> (error + pyval) \<times> state" where
  "pull_body env file locale0 s =
     (let locale = lower locale0 in
      if locale \<notin> dom (supported_locales env)
      then (Inl (UnsupportedLocale (unsupported_msg locale)), s)
      else
        (let master_locale = master_of locale in
         case get_data env file master_locale s of
           (Inl e, s1) \<Rightarrow> (Inl e, s1)
         | (Inr doc, s1) \<Rightarrow>
             (let (data, h1) = load_val (heap s1) doc;
                  s2 = s1\<lparr>heap := h1\<rparr>
              in if CHR ''-'' \<in> set locale
                 then
                   (case get_data env file locale s2 of
                      (Inl e, s3) \<Rightarrow> (Inl e, s3)
                    | (Inr other, s3) \<Rightarrow>
                        (case update_dict_h (heap s3) data other of
                           (Inl e, h2) \<Rightarrow> (Inl e, s3\<lparr>heap := h2\<rparr>)
                         | (Inr r, h2) \<Rightarrow> (Inr r, s3\<lparr>heap := h2\<rparr>)))
                 else (Inr data, s2))))"

definition locale_arg :: "string option \<Rightarrow> string" where
  "locale_arg locale = (case locale of None \<Rightarrow> ''en'' | Some l \<Rightarrow> l)"

definition pull :: "env \<Rightarrow> string \<Rightarrow> string option \<Rightarrow> state \<Rightarrow> (error + pyval) \<times> state" where
  "pull env file locale s =
     (case cache s (file, locale) of
        Some v \<Rightarrow> (Inr v, s)
      | None \<Rightarrow>
          (case pull_body env file (locale_arg locale) s of
             (Inl e, s1) \<Rightarrow> (Inl e, s1)
           | (Inr v, s1) \<Rightarrow> (Inr v, s1\<lparr>cache := (cache s1)((file, locale) \<mapsto> v)\<rparr>)))"

text \<open>The states the module can be in: those a sequence of calls of \<^verbatim>\<open>pull\<close> leads to.\<close>

inductive reachable :: "env \<Rightarrow> state \<Rightarrow> bool" for env :: env where
  reachable_init: "reachable env initial_state"
| reachable_pull: "reachable env s \<Longrightarrow> pull env file locale s = (r, s') \<Longrightarrow> reachable env s'"

text \<open>
  The document \<^verbatim>\<open>pull\<close> is specified to return for a lower-case locale code: the
  parsed file of a simple code, and for a composite code the merge of the parsed file of
  the base locale and the parsed file of the code itself.
\<close>

definition spec_pull :: "env \<Rightarrow> string \<Rightarrow> string \<Rightarrow> error + json" where
  "spec_pull env file locale =
     (case files env (file_path (data_root env) (master_of locale) file) of
        Inl e \<Rightarrow> Inl (LoaderError e)
      | Inr base \<Rightarrow>
          if CHR ''-'' \<in> set locale
          then (case files env (file_path (data_root env) locale file) of
                  Inl e \<Rightarrow> Inl (LoaderError e)
                | Inr region \<Rightarrow> update_dict base region)
          else Inr base)"

section \<open>Auxiliary notions for the proofs\<close>

text \<open>The measure under which the recursion of \<open>update_items\<close> descends.\<close>

definition items_size :: "(string \<times> json) list \<Rightarrow> nat" where
  "items_size kvs = size_list (size_prod (\<lambda>_. 0) size) kvs"

text \<open>
  \<open>fp_others os items kvs key\<close>: the addresses below all entries of a dict object but
  the one stored under \<open>key\<close>.
\<close>

fun fp_others :: "(addr \<Rightarrow> pydict) \<Rightarrow> pydict \<Rightarrow> (string \<times> json) list \<Rightarrow> string \<Rightarrow> addr set" where
  "fp_others os [] kvs key = {}"
| "fp_others os ((k', v) # items) [] key = {}"
| "fp_others os ((k', v) # items) ((k, j) # kvs) key =
     (if k = key then fp_items os items kvs else fp os v j \<union> fp_others os items kvs key)"

text \<open>
  \<open>heap_frame h h' A\<close>: from \<open>h\<close> to \<open>h'\<close> objects were only added, and of the objects of
  \<open>h\<close> only those at the addresses \<open>A\<close> may have changed.
\<close>

definition heap_frame :: "heap \<Rightarrow> heap \<Rightarrow> addr set \<Rightarrow> bool" where
  "heap_frame h h' A \<longleftrightarrow>
     next_addr h \<le> next_addr h' \<and> (\<forall>a. a < next_addr h \<and> a \<notin> A \<longrightarrow> objs h' a = objs h a)"

text \<open>
  \<open>refines h initial ti other\<close>: run in place on a value that denotes \<open>ti\<close>, the loop of
  \<^verbatim>\<open>update_dict\<close> fails as \<open>update_items ti other\<close> does, or returns \<open>initial\<close> itself,
  which then denotes the merged document; and it changes no object outside \<open>initial\<close>.
\<close>

definition refines :: "heap \<Rightarrow> pyval \<Rightarrow> json \<Rightarrow> (string \<times> json) list \<Rightarrow> bool" where
  "refines h initial ti other \<longleftrightarrow>
     (\<exists>r h'. update_items_h h initial other = (r, h')
        \<and> heap_frame h h' (fp (objs h) initial ti)
        \<and> (case update_items ti other of
              Inl e \<Rightarrow> r = Inl e
            | Inr t' \<Rightarrow> r = Inr initial \<and> repr (objs h') initial t'
                \<and> fp (objs h') initial t' \<subseteq> fp (objs h) initial ti \<union> {next_addr h..<next_addr h'}))"

text \<open>
  The invariant of the cache: every entry was stored for a supported locale and denotes
  the document specified for its key.
\<close>

definition cache_ok :: "env \<Rightarrow> state \<Rightarrow> bool" where
  "cache_ok env s \<longleftrightarrow>
     (\<forall>file locale v. cache s (file, locale) = Some v \<longrightarrow>
        lower (locale_arg locale) \<in> dom (supported_locales env)
        \<and> (\<exists>doc. spec_pull env file (lower (locale_arg locale)) = Inr doc
              \<and> repr (objs (heap s)) v doc
              \<and> fp (objs (heap s)) v doc \<subseteq> {..<next_addr (heap s)}))"

text \<open>What a call of \<^verbatim>\<open>pull\<close> returns, in terms of \<open>spec_pull\<close>.\<close>

definition pull_post :: "env \<Rightarrow> string \<Rightarrow> string option \<Rightarrow> state \<Rightarrow> (error + pyval) \<Rightarrow> state \<Rightarrow> bool" where
  "pull_post env file locale s r s' \<longleftrightarrow>
     (if lower (locale_arg locale) \<in> dom (supported_locales env)
      then (case spec_pull env file (lower (locale_arg locale)) of
              Inl e \<Rightarrow> r = Inl e
            | Inr doc \<Rightarrow> (\<exists>v. r = Inr v \<and> cache s' (file, locale) = Some v
                              \<and> repr (objs (heap s')) v doc))
      else r = Inl (UnsupportedLocale (unsupported_msg (lower (locale_arg locale)))) \<and> s' = s)"



text \<open>
  An example: the locales \<^verbatim>\<open>en\<close> and \<^verbatim>\<open>en-gb\<close> with one data file each.
\<close>

definition example_base :: json where
  "example_base = JDict [(''a'', JDict [(''b'', JNum 1), (''c'', JNum 2)])]"

definition example_region :: json where
  "example_region = JDict [(''a'', JDict [(''b'', JNum 9)])]"

definition example_env :: env where
  "example_env =
     \<lparr>supported_locales =
        [''en'' \<mapsto> [''name'' \<mapsto> ''English''], ''en-gb'' \<mapsto> [''name'' \<mapsto> ''English (GB)'']],
      data_root = ''/data'',
      files = (\<lambda>p. if p = ''/data/en/f.json'' then Inr example_base
                   else if p = ''/data/en-gb/f.json'' then Inr example_region
                   else Inl FileNotFoundError)\<rparr>"

section \<open>The store: denotation, frame and the merge in place\<close>

text \<open>
  The equations of \<open>fp\<close>, \<open>repr\<close> and \<open>load_val\<close> by the shape of their arguments.
\<close>

declare fp.simps(1) [simp del] repr.simps(1) [simp del] load_val.simps(1) [simp del]

lemma fp_Ref_JDict [simp]: "fp os (Ref a) (JDict kvs) = insert a (fp_items os (os a) kvs)"
  by (simp add: fp.simps(1))

lemma fp_Imm [simp]: "fp os (Imm i) j = {}"
  by (simp add: fp.simps(1))

lemma fp_not_dict [simp]: "\<not> is_JDict j \<Longrightarrow> fp os v j = {}"
  by (cases j; cases v) (simp_all add: fp.simps(1))

lemma repr_Ref_JDict [simp]:
  "repr os (Ref a) (JDict kvs) = (a \<notin> fp_items os (os a) kvs \<and> repr_items os (os a) kvs)"
  by (simp add: repr.simps(1))

lemma repr_Imm [simp]: "repr os (Imm i) j = (i = j \<and> \<not> is_JDict j)"
  by (cases j) (auto simp add: repr.simps(1))

lemma repr_Ref_not_dict [simp]: "\<not> is_JDict j \<Longrightarrow> repr os (Ref a) j = False"
  by (cases j) (simp_all add: repr.simps(1))

lemma fp_items_Nil [simp]: "fp_items os [] kvs = {}"
  by (cases kvs) auto

lemma fp_items_Cons [simp]:
  "fp_items os ((k', v) # items) ((k, j) # kvs) = fp os v j \<union> fp_items os items kvs"
  by simp

lemma repr_items_Cons [simp]:
  "repr_items os ((k', v) # items) ((k, j) # kvs) =
    (k' = k \<and> repr os v j \<and> repr_items os items kvs \<and> fp os v j \<inter> fp_items os items kvs = {})"
  by simp

lemma repr_items_Nil [simp]: "repr_items os [] kvs = (kvs = [])"
  by (cases kvs) auto

declare fp_items.simps(2) [simp del] repr_items.simps(2) [simp del]

lemma load_val_JDict [simp]:
  "load_val h (JDict kvs) =
     (let (items, h1) = load_items h kvs; (a, h2) = alloc h1 items in (Ref a, h2))"
  by (simp add: load_val.simps(1))

lemma load_val_not_dict [simp]: "\<not> is_JDict j \<Longrightarrow> load_val h j = (Imm j, h)"
  by (cases j) (simp_all add: load_val.simps(1))

lemma repr_frame:
  "repr os v j \<Longrightarrow> (\<forall>a \<in> fp os v j. os' a = os a) \<Longrightarrow> repr os' v j \<and> fp os' v j = fp os v j"
  "repr_items os items kvs \<Longrightarrow> (\<forall>a \<in> fp_items os items kvs. os' a = os a) \<Longrightarrow>
     repr_items os' items kvs \<and> fp_items os' items kvs = fp_items os items kvs"
proof (induction os v j and os items kvs rule: repr_repr_items.induct)
  case (1 os v j)
  show ?case
  proof (cases v)
    case (Imm i)
    then show ?thesis using 1 by simp
  next
    case (Ref a)
    show ?thesis
    proof (cases j)
      case (JDict kvs)
      with Ref 1 show ?thesis by auto
    qed (use Ref 1 in simp_all)
  qed
next
  case (2 os items)
  then show ?case by simp
next
  case (3 os items k j kvs)
  then show ?case by (cases items) auto
qed

lemma map_of_dict_set [simp]:
  "map_of (dict_set items key v) k = (if k = key then Some v else map_of items k)"
  by (induction items) auto

lemma keys_dict_set [simp]: "fst ` set (dict_set items key v) = insert key (fst ` set items)"
proof (induction items)
  case Nil
  then show ?case by simp
next
  case (Cons x items)
  obtain k y where x: "x = (k, y)" by (cases x)
  show ?case
  proof (cases "k = key")
    case True
    then show ?thesis using x by simp
  next
    case False
    then show ?thesis using x Cons.IH by (simp add: insert_commute)
  qed
qed

lemma repr_items_lookup:
  "repr_items os items kvs \<Longrightarrow>
     (case map_of items key of
        None \<Rightarrow> map_of kvs key = None \<and> fp_others os items kvs key = fp_items os items kvs
      | Some v \<Rightarrow> (\<exists>j. map_of kvs key = Some j \<and> repr os v j
            \<and> fp_items os items kvs = fp os v j \<union> fp_others os items kvs key
            \<and> fp os v j \<inter> fp_others os items kvs key = {}))"
proof (induction items arbitrary: kvs)
  case Nil
  then show ?case by simp
next
  case (Cons x items)
  obtain k v where x: "x = (k, v)" by (cases x)
  from Cons.prems x obtain j kvs' where kvs: "kvs = (k, j) # kvs'"
    by (cases kvs) auto
  with Cons.prems x have r: "repr os v j" "repr_items os items kvs'"
    "fp os v j \<inter> fp_items os items kvs' = {}" by auto
  show ?case
  proof (cases "k = key")
    case True
    then show ?thesis using x kvs r by auto
  next
    case False
    then show ?thesis using x kvs r Cons.IH [OF r(2)]
      by (auto split: option.splits)
  qed
qed

lemma fp_others_subset:
  "repr_items os items kvs \<Longrightarrow> fp_others os items kvs key \<subseteq> fp_items os items kvs"
  using repr_items_lookup [of os items kvs key] by (auto split: option.splits)

lemma repr_items_dict_set:
  "repr_items os items kvs \<Longrightarrow>
   (\<forall>a \<in> fp_others os items kvs key. os' a = os a) \<Longrightarrow>
   repr os' v j \<Longrightarrow>
   fp os' v j \<inter> fp_others os items kvs key = {} \<Longrightarrow>
   repr_items os' (dict_set items key v) (dict_set kvs key j)
   \<and> fp_items os' (dict_set items key v) (dict_set kvs key j) = fp_others os items kvs key \<union> fp os' v j"
proof (induction items arbitrary: kvs)
  case Nil
  then show ?case by simp
next
  case (Cons x items)
  obtain k v0 where x: "x = (k, v0)" by (cases x)
  from Cons.prems(1) x obtain j0 kvs' where kvs: "kvs = (k, j0) # kvs'"
    by (cases kvs) auto
  with Cons.prems(1) x have r: "repr os v0 j0" "repr_items os items kvs'"
    "fp os v0 j0 \<inter> fp_items os items kvs' = {}" by auto
  show ?case
  proof (cases "k = key")
    case True
    have agree: "\<forall>a \<in> fp_items os items kvs'. os' a = os a"
      using Cons.prems(2) x kvs True by simp
    have "repr_items os' items kvs' \<and> fp_items os' items kvs' = fp_items os items kvs'"
      using repr_frame(2) [OF r(2) agree] .
    then show ?thesis using x kvs True Cons.prems(3,4) by auto
  next
    case False
    have sub: "fp_others os items kvs' key \<subseteq> fp_items os items kvs'"
      using fp_others_subset [OF r(2)] .
    have agree0: "\<forall>a \<in> fp os v0 j0. os' a = os a"
      using Cons.prems(2) x kvs False by simp
    have f0: "repr os' v0 j0 \<and> fp os' v0 j0 = fp os v0 j0"
      using repr_frame(1) [OF r(1) agree0] .
    have agree: "\<forall>a \<in> fp_others os items kvs' key. os' a = os a"
      using Cons.prems(2) x kvs False by simp
    have disj: "fp os' v j \<inter> fp_others os items kvs' key = {}"
      using Cons.prems(4) x kvs False by auto
    have IH: "repr_items os' (dict_set items key v) (dict_set kvs' key j)
       \<and> fp_items os' (dict_set items key v) (dict_set kvs' key j)
          = fp_others os items kvs' key \<union> fp os' v j"
      using Cons.IH [OF r(2) agree Cons.prems(3) disj] .
    have d2: "fp os v0 j0 \<inter> fp os' v j = {}"
      using Cons.prems(4) x kvs False by auto
    show ?thesis using x kvs False IH f0 r(3) sub d2 by auto
  qed
qed

lemma heap_frame_refl [simp]: "heap_frame h h A"
  by (simp add: heap_frame_def)

lemma heap_frame_trans:
  assumes "heap_frame h h1 A" "heap_frame h1 h2 B"
    and "\<And>x. x < next_addr h \<Longrightarrow> x \<in> A \<or> x \<in> B \<Longrightarrow> x \<in> C"
  shows "heap_frame h h2 C"
  unfolding heap_frame_def
proof (intro conjI allI impI)
  show "next_addr h \<le> next_addr h2"
    using assms(1,2) by (simp add: heap_frame_def)
next
  fix x assume x: "x < next_addr h \<and> x \<notin> C"
  then have xa: "x \<notin> A" and xb: "x \<notin> B" using assms(3) by blast+
  have "x < next_addr h1" using x assms(1) by (simp add: heap_frame_def)
  then have "objs h2 x = objs h1 x" using xb assms(2) by (simp add: heap_frame_def)
  also have "\<dots> = objs h x" using x xa assms(1) by (simp add: heap_frame_def)
  finally show "objs h2 x = objs h x" .
qed

lemma heap_frame_set_item: "heap_frame h (set_item h a key v) {a}"
  by (simp add: heap_frame_def set_item_def)

lemma load_ok:
  "load_val h j = (v, h') \<Longrightarrow>
     heap_frame h h' {} \<and> repr (objs h') v j \<and> fp (objs h') v j \<subseteq> {next_addr h..<next_addr h'}"
  "load_items h kvs = (items, h') \<Longrightarrow>
     heap_frame h h' {} \<and> repr_items (objs h') items kvs
     \<and> fp_items (objs h') items kvs \<subseteq> {next_addr h..<next_addr h'}"
proof (induction h j and h kvs arbitrary: v h' and items h' rule: load_val_load_items.induct)
  case (1 h j)
  show ?case
  proof (cases "is_JDict j")
    case False
    then show ?thesis using 1(2) by auto
  next
    case True
    then obtain kvs where j: "j = JDict kvs" by (cases j) auto
    obtain items h1 where li: "load_items h kvs = (items, h1)" by (cases "load_items h kvs")
    have IH: "heap_frame h h1 {}" "repr_items (objs h1) items kvs"
      "fp_items (objs h1) items kvs \<subseteq> {next_addr h..<next_addr h1}"
      using 1(1) [OF j li] by auto
    have v: "v = Ref (next_addr h1)"
      and h': "h' = h1\<lparr>objs := (objs h1)(next_addr h1 := items), next_addr := Suc (next_addr h1)\<rparr>"
      using 1(2) j li by (auto simp: alloc_def)
    have agree: "\<forall>a \<in> fp_items (objs h1) items kvs. objs h' a = objs h1 a"
      using IH(3) h' by auto
    have r: "repr_items (objs h') items kvs"
      "fp_items (objs h') items kvs = fp_items (objs h1) items kvs"
      using repr_frame(2) [OF IH(2) agree] by auto
    have oa: "objs h' (next_addr h1) = items" using h' by simp
    have "heap_frame h h' {}" using IH(1) h' by (auto simp: heap_frame_def)
    moreover have "repr (objs h') v j" using v j r oa IH(3) by auto
    moreover have "fp (objs h') v j \<subseteq> {next_addr h..<next_addr h'}"
      using v j r oa IH(1,3) h' by (auto simp: heap_frame_def)
    ultimately show ?thesis by simp
  qed
next
  case (2 h)
  then show ?case by auto
next
  case (3 h k v kvs)
  obtain pv h1 where lv: "load_val h v = (pv, h1)" by (cases "load_val h v")
  obtain items' h2 where li: "load_items h1 kvs = (items', h2)" by (cases "load_items h1 kvs")
  have IH1: "heap_frame h h1 {}" "repr (objs h1) pv v" "fp (objs h1) pv v \<subseteq> {next_addr h..<next_addr h1}"
    using 3(1) [OF lv] by auto
  have IH2: "heap_frame h1 h2 {}" "repr_items (objs h2) items' kvs"
    "fp_items (objs h2) items' kvs \<subseteq> {next_addr h1..<next_addr h2}"
    using 3(2) [OF refl lv [symmetric] li] by auto
  have res: "items = (k, pv) # items'" "h' = h2" using 3(3) lv li by auto
  have agree: "\<forall>a \<in> fp (objs h1) pv v. objs h2 a = objs h1 a"
    using IH1(3) IH2(1) by (auto simp: heap_frame_def)
  have r: "repr (objs h2) pv v" "fp (objs h2) pv v = fp (objs h1) pv v"
    using repr_frame(1) [OF IH1(2) agree] by auto
  have "heap_frame h h' {}" using IH1(1) IH2(1) res by (auto simp: heap_frame_def)
  moreover have "fp (objs h1) pv v \<inter> fp_items (objs h2) items' kvs = {}"
    using IH1(3) IH2(3) by (fastforce simp: subset_iff)
  then have "repr_items (objs h') items ((k, v) # kvs)"
    using res r IH2(2) by auto
  moreover have "fp_items (objs h') items ((k, v) # kvs) \<subseteq> {next_addr h..<next_addr h'}"
    using res r IH1(1,3) IH2(1,3) by (auto simp: heap_frame_def)
  ultimately show ?case by simp
qed

lemma set_item_repr:
  assumes r: "a \<notin> fp_items os (os a) kvs" "repr_items os (os a) kvs"
    and agree: "\<forall>x \<in> fp_others os (os a) kvs key. os1 x = os x"
    and oa: "os1 a = os a"
    and rv: "repr os1 v j"
    and disj: "fp os1 v j \<inter> fp_others os (os a) kvs key = {}"
    and av: "a \<notin> fp os1 v j"
  shows "repr (os1(a := dict_set (os1 a) key v)) (Ref a) (JDict (dict_set kvs key j))
     \<and> fp (os1(a := dict_set (os1 a) key v)) (Ref a) (JDict (dict_set kvs key j))
        = insert a (fp_others os (os a) kvs key \<union> fp os1 v j)"
proof -
  let ?os2 = "os1(a := dict_set (os1 a) key v)"
  have sub: "fp_others os (os a) kvs key \<subseteq> fp_items os (os a) kvs"
    using fp_others_subset [OF r(2)] .
  have a_not: "a \<notin> fp_others os (os a) kvs key" using sub r(1) by auto
  have "repr ?os2 v j \<and> fp ?os2 v j = fp os1 v j"
    by (rule repr_frame(1) [OF rv]) (use av in auto)
  then have rv2: "repr ?os2 v j" and fv2: "fp ?os2 v j = fp os1 v j" by blast+
  have agree2: "\<forall>x \<in> fp_others os (os a) kvs key. ?os2 x = os x"
    using agree a_not by auto
  have disj2: "fp ?os2 v j \<inter> fp_others os (os a) kvs key = {}"
    using disj fv2 by simp
  have items: "repr_items ?os2 (dict_set (os a) key v) (dict_set kvs key j)"
    "fp_items ?os2 (dict_set (os a) key v) (dict_set kvs key j)
       = fp_others os (os a) kvs key \<union> fp ?os2 v j"
    using repr_items_dict_set [OF r(2) agree2 rv2 disj2] by auto
  have o2a: "?os2 a = dict_set (os a) key v" using oa by simp
  show ?thesis
    unfolding repr_Ref_JDict fp_Ref_JDict o2a
    using items fv2 a_not av by auto
qed

lemma items_size_rest: "items_size rest < items_size ((key, value) # rest)"
  by (simp add: items_size_def)

lemma items_size_sub: "items_size sub < items_size ((key, JDict sub) # rest)"
  by (simp add: items_size_def)

lemma update_items_h_nondict:
  "\<not> is_JDict value \<Longrightarrow>
   update_items_h h (Ref a) ((key, value) # rest) =
     update_items_h (set_item h a key (Imm value)) (Ref a) rest"
  by (cases "value") simp_all

lemma update_items_h_dict:
  "update_items_h h (Ref a) ((key, JDict sub) # rest) =
     (let (arg, h0) =
            (case map_of (objs h a) key of
               Some v \<Rightarrow> (v, h)
             | None \<Rightarrow> (let (b, h') = alloc h [] in (Ref b, h')))
      in case update_items_h h0 arg sub of
           (Inl e, h1) \<Rightarrow> (Inl e, h1)
         | (Inr r, h1) \<Rightarrow> update_items_h (set_item h1 a key r) (Ref a) rest)"
  by simp

lemma update_items_dict:
  "update_items (JDict items) ((key, JDict sub) # rest) =
     (case update_items (dict_get items key (JDict [])) sub of
        Inl e \<Rightarrow> Inl e
      | Inr r \<Rightarrow> update_items (JDict (dict_set items key r)) rest)"
  by simp

lemma update_items_nondict:
  "\<not> is_JDict value \<Longrightarrow>
   update_items (JDict kvs) ((key, value) # rest) =
     update_items (JDict (dict_set kvs key value)) rest"
  by (cases "value") simp_all

lemma update_items_h_Imm:
  "update_items_h h (Imm i) ((key, value) # rest) =
     (if is_JDict value then (Inl AttributeError, h) else (Inl TypeError, h))"
  by (cases "value") simp_all

lemma update_items_not_dict:
  "\<not> is_JDict i \<Longrightarrow> update_items i ((key, value) # rest) =
     (if is_JDict value then Inl AttributeError else Inl TypeError)"
  by (cases "value"; cases i) simp_all

declare update_items_h.simps(2) [simp del] update_items.simps(2) [simp del]

lemma update_items_h_refines:
  "repr (objs h) initial ti \<Longrightarrow> fp (objs h) initial ti \<subseteq> {..<next_addr h} \<Longrightarrow>
   refines h initial ti other"
proof (induction "items_size other" arbitrary: h initial ti other rule: less_induct)
  case less
  show ?case
  proof (cases other)
    case Nil
    then show ?thesis using less.prems by (simp add: refines_def)
  next
    case (Cons kv rest)
    obtain key "value" where kv: "kv = (key, value)" by (cases kv)
    note other = Cons [unfolded kv]
    show ?thesis
    proof (cases initial)
      case (Imm i)
      then have "\<not> is_JDict ti" "ti = i" using less.prems(1) by auto
      then show ?thesis
        using Imm other by (simp add: refines_def update_items_h_Imm update_items_not_dict)
    next
      case (Ref a)
      then obtain kvs where ti: "ti = JDict kvs"
        using less.prems(1) by (cases ti) auto
      let ?os = "objs h"
      let ?n = "next_addr h"
      let ?F = "insert a (fp_items ?os (?os a) kvs)"
      have F: "fp ?os initial ti = ?F" using Ref ti by simp
      have ra: "a \<notin> fp_items ?os (?os a) kvs" "repr_items ?os (?os a) kvs"
        using less.prems(1) Ref ti by auto
      have below: "a < ?n" "\<forall>x \<in> fp_items ?os (?os a) kvs. x < ?n"
        using less.prems(2) F by auto
      have sub_others: "fp_others ?os (?os a) kvs key \<subseteq> fp_items ?os (?os a) kvs"
        using fp_others_subset [OF ra(2)] .
      show ?thesis
      proof (cases "is_JDict value")
        case False
        let ?h2 = "set_item h a key (Imm value)"
        let ?t2 = "JDict (dict_set kvs key value)"
        have o2: "objs ?h2 = ?os(a := dict_set (?os a) key (Imm value))" "next_addr ?h2 = ?n"
          by (simp_all add: set_item_def)
        have "repr (?os(a := dict_set (?os a) key (Imm value))) (Ref a) ?t2
           \<and> fp (?os(a := dict_set (?os a) key (Imm value))) (Ref a) ?t2
              = insert a (fp_others ?os (?os a) kvs key \<union> fp ?os (Imm value) value)"
          using False by (intro set_item_repr [OF ra]) simp_all
        then have r2: "repr (objs ?h2) initial ?t2"
          and f2: "fp (objs ?h2) initial ?t2 = insert a (fp_others ?os (?os a) kvs key)"
          using o2 Ref by simp_all
        have f2F: "fp (objs ?h2) initial ?t2 \<subseteq> ?F" using f2 sub_others by auto
        have b2: "fp (objs ?h2) initial ?t2 \<subseteq> {..<next_addr ?h2}"
          using f2F below o2(2) by auto
        have "items_size rest < items_size other" using other items_size_rest by simp
        from less.hyps [OF this r2 b2]
        obtain r h' where run: "update_items_h ?h2 initial rest = (r, h')"
          and fr: "heap_frame ?h2 h' (fp (objs ?h2) initial ?t2)"
          and res: "case update_items ?t2 rest of
              Inl e \<Rightarrow> r = Inl e
            | Inr t' \<Rightarrow> r = Inr initial \<and> repr (objs h') initial t'
                \<and> fp (objs h') initial t' \<subseteq> fp (objs ?h2) initial ?t2 \<union> {next_addr ?h2..<next_addr h'}"
          unfolding refines_def by blast
        have run': "update_items_h h initial other = (r, h')"
          using run other Ref False by (simp add: update_items_h_nondict)
        have val': "update_items ti other = update_items ?t2 rest"
          using other ti False by (simp add: update_items_nondict)
        have fr': "heap_frame h h' ?F"
          using fr f2F o2 unfolding heap_frame_def by auto
        have res': "case update_items ti other of
              Inl e \<Rightarrow> r = Inl e
            | Inr t' \<Rightarrow> r = Inr initial \<and> repr (objs h') initial t'
                \<and> fp (objs h') initial t' \<subseteq> ?F \<union> {?n..<next_addr h'}"
          using res f2F o2(2) unfolding val' by (auto split: sum.splits)
        show ?thesis unfolding refines_def F using run' fr' res' by blast
      next
        case True
        then obtain sub where "value": "value = JDict sub" by (cases "value") auto
        define argh where "argh = (case map_of (?os a) key of
                         Some v \<Rightarrow> (v, h)
                       | None \<Rightarrow> (let (b, h') = alloc h [] in (Ref b, h')))"
        obtain arg h0 where argh_eq: "argh = (arg, h0)" by (cases argh)
        define targ where "targ = dict_get kvs key (JDict [])"
        let ?O = "fp_others ?os (?os a) kvs key"
        have arg_all: "repr (objs h0) arg targ \<and> fp (objs h0) arg targ \<subseteq> {..<next_addr h0} \<and>
            heap_frame h h0 {} \<and> fp (objs h0) arg targ \<inter> ?O = {} \<and>
            fp (objs h0) arg targ \<subseteq> ?F \<union> {?n..<next_addr h0} \<and> a \<notin> fp (objs h0) arg targ"
        proof (cases "map_of (?os a) key")
            case None
            then have "map_of kvs key = None"
              using repr_items_lookup [OF ra(2), of key] by simp
            then have t: "targ = JDict []" by (simp add: targ_def dict_get_def)
            have a0: "arg = Ref ?n" "objs h0 = ?os(?n := [])" "next_addr h0 = Suc ?n"
              using argh_eq None by (auto simp: argh_def alloc_def)
            show ?thesis
              using t a0 below sub_others by (auto simp: heap_frame_def)
          next
            case (Some v0)
            then obtain j0 where j0: "map_of kvs key = Some j0" "repr ?os v0 j0"
              "fp_items ?os (?os a) kvs = fp ?os v0 j0 \<union> ?O" "fp ?os v0 j0 \<inter> ?O = {}"
              using repr_items_lookup [OF ra(2), of key] by auto
            have t: "targ = j0" using j0(1) by (simp add: targ_def dict_get_def)
            have a0: "arg = v0" "h0 = h" using argh_eq Some by (auto simp: argh_def)
            show ?thesis
              using t a0 j0 below ra(1) by auto
          qed
        then have arg: "repr (objs h0) arg targ"
          "fp (objs h0) arg targ \<subseteq> {..<next_addr h0}"
          "heap_frame h h0 {}"
          "fp (objs h0) arg targ \<inter> ?O = {}"
          "fp (objs h0) arg targ \<subseteq> ?F \<union> {?n..<next_addr h0}"
          "a \<notin> fp (objs h0) arg targ"
          by blast+
        have "items_size sub < items_size other" using other "value" items_size_sub by simp
        from less.hyps [OF this arg(1,2)]
        obtain r1 h1 where run1: "update_items_h h0 arg sub = (r1, h1)"
          and fr1: "heap_frame h0 h1 (fp (objs h0) arg targ)"
          and res1: "case update_items targ sub of
              Inl e \<Rightarrow> r1 = Inl e
            | Inr t1 \<Rightarrow> r1 = Inr arg \<and> repr (objs h1) arg t1
                \<and> fp (objs h1) arg t1 \<subseteq> fp (objs h0) arg targ \<union> {next_addr h0..<next_addr h1}"
          unfolding refines_def by blast
        have step_h: "update_items_h h initial other =
            (case r1 of Inl e \<Rightarrow> (Inl e, h1)
             | Inr r \<Rightarrow> update_items_h (set_item h1 a key r) (Ref a) rest)"
          using other "value" Ref argh_eq run1 by (simp add: update_items_h_dict argh_def [symmetric])
        have step_v: "update_items ti other =
            (case update_items targ sub of Inl e \<Rightarrow> Inl e
             | Inr r \<Rightarrow> update_items (JDict (dict_set kvs key r)) rest)"
          using other "value" ti by (simp add: update_items_dict targ_def)
        have fr01: "heap_frame h h1 ?F"
          using arg(5) by (intro heap_frame_trans [OF arg(3) fr1]) auto
        show ?thesis
        proof (cases "update_items targ sub")
          case (Inl e)
          then have "r1 = Inl e" using res1 by simp
          then show ?thesis
            unfolding refines_def F using step_h step_v Inl fr01 by simp
        next
          case (Inr t1)
          then have r1: "r1 = Inr arg" and rep1: "repr (objs h1) arg t1"
            and fp1: "fp (objs h1) arg t1 \<subseteq> fp (objs h0) arg targ \<union> {next_addr h0..<next_addr h1}"
            using res1 by simp_all
          let ?h2 = "set_item h1 a key arg"
          let ?t2 = "JDict (dict_set kvs key t1)"
          have n01: "?n \<le> next_addr h0" "next_addr h0 \<le> next_addr h1"
            using arg(3) fr1 by (simp_all add: heap_frame_def)
          have same: "\<And>x. x < ?n \<Longrightarrow> x \<notin> fp (objs h0) arg targ \<Longrightarrow> objs h1 x = ?os x"
            using arg(3) fr1 unfolding heap_frame_def by auto
          have agree: "\<forall>x \<in> ?O. objs h1 x = ?os x"
            using same below(2) sub_others arg(4) by (auto simp: subset_iff)
          have oa: "objs h1 a = ?os a" using same below(1) arg(6) by simp
          have disj: "fp (objs h1) arg t1 \<inter> ?O = {}"
            using fp1 arg(4) below(2) sub_others n01 by (fastforce simp: subset_iff)
          have av: "a \<notin> fp (objs h1) arg t1"
            using fp1 arg(6) below(1) n01 by (fastforce simp: subset_iff)
          have o2: "objs ?h2 = (objs h1)(a := dict_set (objs h1 a) key arg)"
            "next_addr ?h2 = next_addr h1"
            by (simp_all add: set_item_def)
          have r2: "repr (objs ?h2) initial ?t2"
            and f2: "fp (objs ?h2) initial ?t2 = insert a (?O \<union> fp (objs h1) arg t1)"
            using set_item_repr [OF ra agree oa rep1 disj av] o2 Ref by simp_all
          have f2F: "fp (objs ?h2) initial ?t2 \<subseteq> ?F \<union> {?n..<next_addr h1}"
            using f2 sub_others fp1 arg(5) n01 by (fastforce simp: subset_iff)
          have b2: "fp (objs ?h2) initial ?t2 \<subseteq> {..<next_addr ?h2}"
            using f2F below o2(2) n01 by (fastforce simp: subset_iff)
          have "items_size rest < items_size other" using other items_size_rest by simp
          from less.hyps [OF this r2 b2]
          obtain r h' where run: "update_items_h ?h2 initial rest = (r, h')"
            and fr: "heap_frame ?h2 h' (fp (objs ?h2) initial ?t2)"
            and res: "case update_items ?t2 rest of
                Inl e \<Rightarrow> r = Inl e
              | Inr t' \<Rightarrow> r = Inr initial \<and> repr (objs h') initial t'
                  \<and> fp (objs h') initial t' \<subseteq> fp (objs ?h2) initial ?t2 \<union> {next_addr ?h2..<next_addr h'}"
            unfolding refines_def by blast
          have run': "update_items_h h initial other = (r, h')"
            using step_h r1 run Ref by simp
          have val': "update_items ti other = update_items ?t2 rest"
            using step_v Inr by simp
          have n2: "next_addr h1 \<le> next_addr h'" using fr o2(2) by (simp add: heap_frame_def)
          have fr': "heap_frame h h' ?F"
            unfolding heap_frame_def
          proof (intro conjI allI impI)
            show "?n \<le> next_addr h'" using n01 n2 by simp
          next
            fix x assume x: "x < ?n \<and> x \<notin> ?F"
            then have "x \<notin> fp (objs ?h2) initial ?t2" using f2F by auto
            moreover have "x < next_addr ?h2" using x n01 o2(2) by simp
            ultimately have "objs h' x = objs ?h2 x" using fr by (simp add: heap_frame_def)
            also have "\<dots> = objs h1 x" using x o2(1) by simp
            also have "\<dots> = ?os x" using fr01 x by (simp add: heap_frame_def)
            finally show "objs h' x = ?os x" .
          qed
          have res': "case update_items ti other of
                Inl e \<Rightarrow> r = Inl e
              | Inr t' \<Rightarrow> r = Inr initial \<and> repr (objs h') initial t'
                  \<and> fp (objs h') initial t' \<subseteq> ?F \<union> {?n..<next_addr h'}"
            using res f2F o2(2) n01 n2 unfolding val'
            by (auto split: sum.splits simp: subset_iff)
          show ?thesis unfolding refines_def F using run' fr' res' by blast
        qed
      qed
    qed
  qed
qed

section \<open>The body of pull computes the specified document\<close>

lemma update_dict_h_refines:
  assumes "repr (objs h) initial ti" "fp (objs h) initial ti \<subseteq> {..<next_addr h}"
  shows "\<exists>r h'. update_dict_h h initial other = (r, h')
     \<and> heap_frame h h' (fp (objs h) initial ti)
     \<and> (case update_dict ti other of
           Inl e \<Rightarrow> r = Inl e
         | Inr t' \<Rightarrow> r = Inr initial \<and> repr (objs h') initial t'
             \<and> fp (objs h') initial t' \<subseteq> fp (objs h) initial ti \<union> {next_addr h..<next_addr h'})"
proof (cases "is_JDict other")
  case True
  then obtain kvs where "other = JDict kvs" by (cases other) auto
  then show ?thesis
    using update_items_h_refines [OF assms, of kvs]
    by (simp add: update_dict_h_def update_dict_def refines_def)
next
  case False
  then show ?thesis
    by (cases other) (simp_all add: update_dict_h_def update_dict_def)
qed

lemma pull_body_unsupported:
  "lower locale0 \<notin> dom (supported_locales env) \<Longrightarrow>
   pull_body env file locale0 s = (Inl (UnsupportedLocale (unsupported_msg (lower locale0))), s)"
  by (simp add: pull_body_def)

lemma pull_body_refines:
  assumes sup: "lower locale0 \<in> dom (supported_locales env)"
  shows "\<exists>r s'. pull_body env file locale0 s = (r, s')
     \<and> heap_frame (heap s) (heap s') {} \<and> cache s' = cache s
     \<and> (case spec_pull env file (lower locale0) of
           Inl e \<Rightarrow> r = Inl e
         | Inr doc \<Rightarrow> (\<exists>v. r = Inr v \<and> repr (objs (heap s')) v doc
             \<and> fp (objs (heap s')) v doc \<subseteq> {..<next_addr (heap s')}))"
proof -
  define l where "l = lower locale0"
  define p1 where "p1 = file_path (data_root env) (master_of l) file"
  define p2 where "p2 = file_path (data_root env) l file"
  show ?thesis
  proof (cases "files env p1")
    case (Inl e)
    then show ?thesis using sup
      by (simp add: pull_body_def spec_pull_def get_data_def l_def p1_def)
  next
    case (Inr base)
    let ?s1 = "s\<lparr>opened := opened s @ [p1]\<rparr>"
    obtain data h1 where lv: "load_val (heap s) base = (data, h1)"
      by (cases "load_val (heap s) base")
    from load_ok(1) [OF lv]
    have l1: "heap_frame (heap s) h1 {}" "repr (objs h1) data base"
      "fp (objs h1) data base \<subseteq> {next_addr (heap s)..<next_addr h1}" by auto
    then have b1: "fp (objs h1) data base \<subseteq> {..<next_addr h1}" by auto
    show ?thesis
    proof (cases "CHR ''-'' \<in> set l")
      case False
      then show ?thesis using sup Inr lv l1 b1
        by (simp add: pull_body_def spec_pull_def get_data_def l_def [symmetric] p1_def [symmetric])
    next
      case True
      show ?thesis
      proof (cases "files env p2")
        case (Inl e)
        then show ?thesis using sup Inr lv l1 True
          by (simp add: pull_body_def spec_pull_def get_data_def l_def [symmetric]
              p1_def [symmetric] p2_def [symmetric])
      next
        case region: (Inr region)
        from update_dict_h_refines [OF l1(2) b1, of region]
        obtain r h2 where run: "update_dict_h h1 data region = (r, h2)"
          and fr: "heap_frame h1 h2 (fp (objs h1) data base)"
          and res: "case update_dict base region of
              Inl e \<Rightarrow> r = Inl e
            | Inr t' \<Rightarrow> r = Inr data \<and> repr (objs h2) data t'
                \<and> fp (objs h2) data t' \<subseteq> fp (objs h1) data base \<union> {next_addr h1..<next_addr h2}"
          by blast
        have fr2: "heap_frame (heap s) h2 {}"
          using l1(3) by (intro heap_frame_trans [OF l1(1) fr]) auto
        have n12: "next_addr h1 \<le> next_addr h2" using fr by (simp add: heap_frame_def)
        have body: "pull_body env file locale0 s =
            (r, s\<lparr>opened := opened s @ [p1, p2], heap := h2\<rparr>)"
          using sup Inr lv True region run
          by (cases r) (simp_all add: pull_body_def get_data_def l_def [symmetric]
              p1_def [symmetric] p2_def [symmetric])
        have spec: "spec_pull env file l = update_dict base region"
          using Inr True region
          by (simp add: spec_pull_def p1_def [symmetric] p2_def [symmetric])
        show ?thesis
          unfolding l_def [symmetric] body spec
          using fr2 res b1 n12 by (auto split: sum.splits simp: subset_iff)
      qed
    qed
  qed
qed

lemma lower_char_idem [simp]: "lower_char (lower_char c) = lower_char c"
  by (auto simp: lower_char_def Let_def)

lemma lower_idem [simp]: "lower (lower s) = lower s"
  by (simp add: lower_def)

lemma lower_char_dash [simp]: "lower_char c = CHR ''-'' \<longleftrightarrow> c = CHR ''-''"
proof
  assume "c = CHR ''-''"
  then show "lower_char c = CHR ''-''" by (simp add: lower_char_def)
next
  assume a: "lower_char c = CHR ''-''"
  show "c = CHR ''-''"
  proof (cases "65 \<le> (of_char c :: nat) \<and> (of_char c :: nat) \<le> 90")
    case False
    with a show ?thesis by (auto simp: lower_char_def Let_def)
  next
    case True
    then have "(of_char (lower_char c) :: nat) = of_char c + 32"
      by (simp add: lower_char_def Let_def)
    with a True show ?thesis by simp
  qed
qed

lemma dash_in_lower [simp]: "CHR ''-'' \<in> set (lower s) \<longleftrightarrow> CHR ''-'' \<in> set s"
  by (induction s) (auto simp: lower_def eq_commute [of "CHR ''-''"])

lemma master_of_lower: "master_of (lower s) = lower (master_of s)"
  by (induction s) (simp_all add: master_of_def lower_def)

lemma master_of_simple: "CHR ''-'' \<notin> set s \<Longrightarrow> master_of s = s"
  by (auto simp: master_of_def)

lemma master_of_no_dash [simp]: "CHR ''-'' \<notin> set (master_of s)"
  unfolding master_of_def by (induction s) auto

lemma master_of_idem [simp]: "master_of (master_of s) = master_of s"
  by (simp add: master_of_simple)

section \<open>The cache invariant holds in every reachable state\<close>

lemma repr_heap_frame:
  assumes "repr (objs h) v doc" "fp (objs h) v doc \<subseteq> {..<next_addr h}" "heap_frame h h' {}"
  shows "repr (objs h') v doc \<and> fp (objs h') v doc \<subseteq> {..<next_addr h'}"
proof -
  have agree: "\<forall>a \<in> fp (objs h) v doc. objs h' a = objs h a"
    using assms(2,3) by (auto simp: heap_frame_def)
  have "next_addr h \<le> next_addr h'" using assms(3) by (simp add: heap_frame_def)
  then show ?thesis
    using repr_frame(1) [OF assms(1) agree] assms(2) by auto
qed

lemma cache_ok_frame:
  assumes ok: "cache_ok env s" and fr: "heap_frame (heap s) (heap s') {}"
    and c: "cache s' = cache s"
  shows "cache_ok env s'"
  unfolding cache_ok_def
proof (intro allI impI)
  fix f l v assume "cache s' (f, l) = Some v"
  then have "cache s (f, l) = Some v" using c by simp
  then obtain doc where sup: "lower (locale_arg l) \<in> dom (supported_locales env)"
    and d: "spec_pull env f (lower (locale_arg l)) = Inr doc"
      "repr (objs (heap s)) v doc" "fp (objs (heap s)) v doc \<subseteq> {..<next_addr (heap s)}"
    using ok unfolding cache_ok_def by blast
  from repr_heap_frame [OF d(2,3) fr] sup d(1)
  show "lower (locale_arg l) \<in> dom (supported_locales env) \<and>
    (\<exists>doc. spec_pull env f (lower (locale_arg l)) = Inr doc \<and>
       repr (objs (heap s')) v doc \<and> fp (objs (heap s')) v doc \<subseteq> {..<next_addr (heap s')})"
    by blast
qed

lemma cache_ok_insert:
  assumes ok: "cache_ok env s"
    and sup: "lower (locale_arg locale) \<in> dom (supported_locales env)"
    and d: "spec_pull env file (lower (locale_arg locale)) = Inr doc"
      "repr (objs (heap s)) v doc" "fp (objs (heap s)) v doc \<subseteq> {..<next_addr (heap s)}"
  shows "cache_ok env (s\<lparr>cache := (cache s)((file, locale) \<mapsto> v)\<rparr>)"
  using ok sup d unfolding cache_ok_def by auto

lemma pull_refines:
  assumes ok: "cache_ok env s"
  shows "\<exists>r s'. pull env file locale s = (r, s') \<and> cache_ok env s' \<and> pull_post env file locale s r s'"
proof (cases "cache s (file, locale)")
  case (Some v)
  then obtain doc where "lower (locale_arg locale) \<in> dom (supported_locales env)"
    "spec_pull env file (lower (locale_arg locale)) = Inr doc" "repr (objs (heap s)) v doc"
    using ok unfolding cache_ok_def by blast
  then show ?thesis using Some ok by (simp add: pull_def pull_post_def)
next
  case None
  show ?thesis
  proof (cases "lower (locale_arg locale) \<in> dom (supported_locales env)")
    case False
    then show ?thesis using None ok
      by (simp add: pull_def pull_post_def pull_body_unsupported)
  next
    case True
    from pull_body_refines [OF True, of "file" s]
    obtain r sb where body: "pull_body env file (locale_arg locale) s = (r, sb)"
      and fr: "heap_frame (heap s) (heap sb) {}" and c: "cache sb = cache s"
      and res: "case spec_pull env file (lower (locale_arg locale)) of
           Inl e \<Rightarrow> r = Inl e
         | Inr doc \<Rightarrow> (\<exists>v. r = Inr v \<and> repr (objs (heap sb)) v doc
             \<and> fp (objs (heap sb)) v doc \<subseteq> {..<next_addr (heap sb)})"
      by blast
    have okb: "cache_ok env sb" using cache_ok_frame [OF ok fr c] .
    show ?thesis
    proof (cases "spec_pull env file (lower (locale_arg locale))")
      case (Inl e)
      then have "r = Inl e" using res by simp
      then show ?thesis using None body okb True Inl
        by (simp add: pull_def pull_post_def)
    next
      case (Inr doc)
      then obtain v where v: "r = Inr v" "repr (objs (heap sb)) v doc"
        "fp (objs (heap sb)) v doc \<subseteq> {..<next_addr (heap sb)}"
        using res by auto
      have "cache_ok env (sb\<lparr>cache := (cache sb)((file, locale) \<mapsto> v)\<rparr>)"
        using cache_ok_insert [OF okb True Inr v(2,3)] .
      then show ?thesis using None body True Inr v
        by (simp add: pull_def pull_post_def)
    qed
  qed
qed

lemma cache_ok_initial: "cache_ok env initial_state"
  by (simp add: cache_ok_def initial_state_def)

lemma reachable_cache_ok: "reachable env s \<Longrightarrow> cache_ok env s"
proof (induction rule: reachable.induct)
  case reachable_init
  then show ?case by (rule cache_ok_initial)
next
  case (reachable_pull s f l r s')
  then show ?case using pull_refines [of env s f l] by auto
qed

lemma pull_reachable:
  assumes "reachable env s"
  shows "\<exists>r s'. pull env file locale s = (r, s') \<and> reachable env s' \<and> pull_post env file locale s r s'"
proof -
  from pull_refines [OF reachable_cache_ok [OF assms], of "file" "locale"]
  obtain r s' where p: "pull env file locale s = (r, s')" "pull_post env file locale s r s'"
    by blast
  then show ?thesis using reachable_pull [OF assms p(1)] by blast
qed

lemma pull_body_cache: "cache (snd (pull_body env file locale0 s)) = cache s"
proof (cases "lower locale0 \<in> dom (supported_locales env)")
  case True
  from pull_body_refines [OF True, of "file" s] show ?thesis by auto
next
  case False
  then show ?thesis by (simp add: pull_body_unsupported)
qed

lemma pull_keeps_entries:
  assumes "pull env file locale s = (r, s1)" and "cache s k = Some w"
  shows "cache s1 k = Some w"
proof (cases "cache s (file, locale)")
  case (Some v)
  then show ?thesis using assms by (simp add: pull_def)
next
  case None
  obtain rb sb where b: "pull_body env file (locale_arg locale) s = (rb, sb)"
    by (cases "pull_body env file (locale_arg locale) s")
  have c: "cache sb = cache s" using pull_body_cache [of env "file" "locale_arg locale" s] b by simp
  have k: "k \<noteq> (file, locale)" using None assms(2) by auto
  show ?thesis using assms None b c k by (cases rb) (auto simp: pull_def)
qed

lemma update_items_errors:
  "update_items ti other = Inl e \<Longrightarrow> e = TypeError \<or> e = AttributeError"
proof (induction "items_size other" arbitrary: ti other rule: less_induct)
  case less
  show ?case
  proof (cases other)
    case Nil
    then show ?thesis using less.prems by simp
  next
    case (Cons kv rest)
    obtain key "value" where kv: "kv = (key, value)" by (cases kv)
    note other = Cons [unfolded kv]
    have rest: "items_size rest < items_size other" using other items_size_rest by simp
    show ?thesis
    proof (cases "is_JDict ti")
      case False
      then show ?thesis using less.prems other
        by (simp add: update_items_not_dict split: if_splits)
    next
      case True
      then obtain items where ti: "ti = JDict items" by (cases ti) auto
      show ?thesis
      proof (cases "is_JDict value")
        case False
        then show ?thesis using less.prems other ti less.hyps [OF rest]
          by (simp add: update_items_nondict)
      next
        case True
        then obtain sub where v: "value = JDict sub" by (cases "value") auto
        have sub: "items_size sub < items_size other" using other v items_size_sub by simp
        show ?thesis using less.prems other ti v less.hyps [OF rest] less.hyps [OF sub]
          by (auto simp: update_items_dict split: sum.splits)
      qed
    qed
  qed
qed

lemma spec_pull_not_unsupported: "spec_pull env file l \<noteq> Inl (UnsupportedLocale msg)"
proof
  assume a: "spec_pull env file l = Inl (UnsupportedLocale msg)"
  then obtain base region where "update_dict base region = Inl (UnsupportedLocale msg)"
    by (auto simp: spec_pull_def split: sum.splits if_splits)
  then show False
    using update_items_errors [of base _ "UnsupportedLocale msg"]
    by (cases region) (auto simp: update_dict_def)
qed

section \<open>update\_dict on documents: keys, values and success\<close>















section \<open>check\_gender and download\_image\<close>

lemma sorted_tokens:
  "sort [''0'', ''9'', ''1'', ''2'', ''f'', ''m'', ''female'', ''male'']
     = [''0'', ''1'', ''2'', ''9'', ''f'', ''female'', ''m'', ''male'']"
  by code_simp

lemma supported_tokens:
  "sort (map fst (gender_options o')) = [''0'', ''1'', ''2'', ''9'', ''f'', ''female'', ''m'', ''male'']"
  by (simp only: gender_options_def list.map fst_conv sorted_tokens)

lemma gender_message:
  "''Gender must be '' @ join '', '' [''0'', ''1'', ''2'', ''9'', ''f'', ''female'', ''m'', ''male''] @ ''.''
     = ''Gender must be 0, 1, 2, 9, f, female, m, male.''"
  by simp

lemma check_gender_None: "check_gender rnd GNone = Inr (choice2 rnd ''female'' ''male'')"
  by (simp add: check_gender_def Let_def)

lemma check_gender_token:
  assumes "g \<noteq> GNone"
  shows "check_gender rnd g =
     (let t = lower (str_gender g) in
      if t \<in> {''0'', ''9''} then Inr (choice2 rnd ''female'' ''male'')
      else if t \<in> {''1'', ''m'', ''male''} then Inr ''male''
      else if t \<in> {''2'', ''f'', ''female''} then Inr ''female''
      else Inl (UnexpectedGender ''Gender must be 0, 1, 2, 9, f, female, m, male.''))"
  using assms
  unfolding check_gender_def Let_def supported_tokens gender_message
  by (auto simp: gender_options_def)

lemma lower_tokens: "lower ''M'' = ''m''" "lower ''f'' = ''f''" "lower ''male'' = ''male''"
  "lower ''x'' = ''x''" "lower ''0'' = ''0''"
  by code_simp+

lemma str_int_0: "str_int 0 = ''0''" by code_simp

lemma download_image_None:
  "download_image urlretrieve None save_path False s = (Inr None, s)"
  by (simp add: download_image_def)

lemma last_segment_after_slash:
  assumes "CHR ''/'' \<notin> set name"
  shows "last_segment (pre @ ''/'' @ name) = name"
proof -
  have "takeWhile (\<lambda>c. c \<noteq> CHR ''/'') (rev name @ CHR ''/'' # rev pre)
          = takeWhile (\<lambda>c. c \<noteq> CHR ''/'') (rev name)"
    by (rule takeWhile_tail) simp
  also have "\<dots> = rev name" using assms by (auto simp: takeWhile_eq_all_conv)
  finally show ?thesis by (simp add: last_segment_def)
qed

lemma download_image_name:
  assumes "urlretrieve url (save_path @ last_segment url) = Inr u"
  shows "fst (download_image urlretrieve (Some url) save_path unverified_ctx s)
           = Inr (Some (last_segment url))"
  using assms by (simp add: download_image_def Let_def)

section \<open>luhn\_checksum computes the specified check digit\<close>

lemma digit_char_0: "digit_char 0 = CHR ''0''" by code_simp

lemma is_digit_digit_char: "d < 10 \<Longrightarrow> is_digit (digit_char d)"
  by (simp add: is_digit_def digit_char_def)

lemma str_int_digit: "0 \<le> x \<Longrightarrow> x < 10 \<Longrightarrow> str_int x = [digit_char (nat x)]"
  by (simp add: str_int_def str_nat.simps)

lemma luhn_step: "is_digit s \<Longrightarrow>
   (let sx1 = (if i mod 2 = 0 then (int (of_char s) - 48) * 2 else int (of_char s) - 48);
        sx2 = (if sx1 > 9 then sx1 - 9 else sx1) in sx2) = spec_luhn_term i (digit_value s)"
  by (auto simp: spec_luhn_term_def digit_value_def is_digit_def Let_def)

lemma luhn_loop_sum:
  "list_all is_digit xs \<Longrightarrow>
   luhn_loop check (enumerate n xs) =
     Inr (check + (\<Sum>i < length xs. spec_luhn_term (n + i) (digit_value (xs ! i))))"
proof (induction xs arbitrary: check n)
  case Nil
  then show ?case by simp
next
  case (Cons x xs)
  have d: "is_digit x" and ds: "list_all is_digit xs" using Cons.prems by simp_all
  have step: "luhn_loop check (enumerate n (x # xs)) =
      luhn_loop (check + spec_luhn_term n (digit_value x)) (enumerate (Suc n) xs)"
    using d luhn_step [OF d, of n] by (simp add: int_of_char_def Let_def)
  show ?case
    unfolding step Cons.IH [OF ds]
    by (simp add: sum.lessThan_Suc_shift add.assoc del: sum.lessThan_Suc)
qed

lemma luhn_checksum_digits:
  assumes "list_all is_digit num"
  shows "luhn_checksum num = Inr (spec_checksum num)"
proof -
  have r: "list_all is_digit (rev num)" using assms by (simp add: list_all_iff)
  have "luhn_loop 0 (enumerate 0 (rev num)) = Inr (spec_luhn_sum num)"
    unfolding luhn_loop_sum [OF r]
    by (auto simp: spec_luhn_sum_def Let_def rev_map intro!: sum.cong)
  moreover have "0 \<le> spec_luhn_sum num * 9 mod 10" "spec_luhn_sum num * 9 mod 10 < 10"
    by simp_all
  ultimately show ?thesis
    by (simp add: luhn_checksum_def spec_checksum_def str_int_digit)
qed

lemma digit_value_0: "digit_value CHR ''0'' = 0" by (simp add: digit_value_def)

lemma zeros_sum:
  assumes "set num \<subseteq> {CHR ''0''}"
  shows "spec_luhn_sum num = 0"
proof -
  have "\<And>i. i < length num \<Longrightarrow> rev (map digit_value num) ! i = 0"
  proof -
    fix i assume i: "i < length num"
    then have "rev (map digit_value num) ! i \<in> set (rev (map digit_value num))"
      by (intro nth_mem) simp
    then show "rev (map digit_value num) ! i = 0"
      using assms digit_value_0 by auto
  qed
  then have "(\<Sum>i < length (rev (map digit_value num)).
      spec_luhn_term i (rev (map digit_value num) ! i)) = 0"
    by (intro sum.neutral) (simp add: spec_luhn_term_def)
  then show ?thesis
    by (simp add: spec_luhn_sum_def Let_def)
qed

lemma zeros_digits: "set num \<subseteq> {CHR ''0''} \<Longrightarrow> list_all is_digit num"
  by (auto simp: list_all_iff is_digit_def)

section \<open>Unsupported locales\<close>

lemma lower_EN: "lower ''EN'' = ''en''" "lower ''en'' = ''en''"
  "lower ''xx-impossible'' = ''xx-impossible''"
  by code_simp+

lemma locale_info_unsupported_iff:
  "(\<exists>msg. locale_info tbl l = Inl (UnsupportedLocale msg)) \<longleftrightarrow> lower l \<notin> dom tbl"
  by (auto simp: locale_info_def Let_def split: option.splits)

lemma pull_unsupported_iff:
  assumes "reachable env s"
  shows "(\<exists>msg s'. pull env file locale s = (Inl (UnsupportedLocale msg), s'))
     \<longleftrightarrow> lower (locale_arg locale) \<notin> dom (supported_locales env)"
proof -
  from pull_reachable [OF assms, of "file" "locale"]
  obtain r s' where p: "pull env file locale s = (r, s')"
    "pull_post env file locale s r s'" by blast
  show ?thesis
  proof (cases "lower (locale_arg locale) \<in> dom (supported_locales env)")
    case False
    then show ?thesis using p by (auto simp: pull_post_def)
  next
    case True
    then have "r \<noteq> Inl (UnsupportedLocale msg)" for msg
      using p(2) spec_pull_not_unsupported [of env "file" "lower (locale_arg locale)" msg]
      by (auto simp: pull_post_def split: sum.splits)
    then show ?thesis using p(1) True by auto
  qed
qed

lemma file_path_plain:
  assumes "take 1 file \<noteq> ''/''" and "locale_name \<noteq> []" and "last locale_name \<noteq> CHR ''/''"
  shows "file_path root locale_name file = root @ ''/'' @ locale_name @ ''/'' @ file"
proof -
  obtain xs x where l: "locale_name = xs @ [x]"
    using assms(2) by (cases locale_name rule: rev_cases) auto
  then have "x \<noteq> CHR ''/''" using assms(3) by simp
  then show ?thesis using assms(1) l by (simp add: file_path_def path_join_def)
qed

section \<open>The example environment\<close>

lemma example_lower: "lower ''en'' = ''en''" "lower ''en-gb'' = ''en-gb''" "lower ''EN'' = ''en''"
  "lower ''xx-impossible'' = ''xx-impossible''"
  by code_simp+

lemma example_paths:
  "file_path (data_root example_env) ''en'' ''f.json'' = ''/data/en/f.json''"
  "file_path (data_root example_env) ''en-gb'' ''f.json'' = ''/data/en-gb/f.json''"
  by (simp_all add: example_env_def file_path_def path_join_def)

lemma example_master: "master_of ''en-gb'' = ''en''" "master_of ''en'' = ''en''"
  by (simp_all add: master_of_def)

lemma example_files:
  "files example_env ''/data/en/f.json'' = Inr example_base"
  "files example_env ''/data/en-gb/f.json'' = Inr example_region"
  by (simp_all add: example_env_def)

lemma example_supported:
  "''en'' \<in> dom (supported_locales example_env)"
  "''en-gb'' \<in> dom (supported_locales example_env)"
  "''xx-impossible'' \<notin> dom (supported_locales example_env)"
  by (simp_all add: example_env_def)

lemma example_merge:
  "update_dict example_base example_region
     = Inr (JDict [(''a'', JDict [(''b'', JNum 9), (''c'', JNum 2)])])"
  by (simp add: example_base_def example_region_def update_dict_def update_items_dict
      update_items_nondict dict_get_def)

lemma example_regional_pull:
  "fst (pull example_env ''f.json'' (Some ''en-gb'') initial_state) = Inr (Ref 1)"
  by (simp add: pull_def pull_body_def locale_arg_def example_lower example_supported
      example_master get_data_def example_paths example_files example_base_def
      example_region_def initial_state_def alloc_def update_dict_h_def update_items_h_dict
      update_items_h_nondict set_item_def Let_def)

lemma example_base_pull:
  "pull example_env ''f.json'' (Some ''en'') initial_state
     = (Inr (Ref 1),
        \<lparr>heap = \<lparr>objs = (\<lambda>_. [])(0 := [(''b'', Imm (JNum 1)), (''c'', Imm (JNum 2))],
                                  1 := [(''a'', Ref 0)]),
                 next_addr = 2\<rparr>,
         cache = [(''f.json'', Some ''en'') \<mapsto> Ref 1],
         opened = [''/data/en/f.json'']\<rparr>)"
  by (simp add: pull_def pull_body_def locale_arg_def example_lower example_supported
      example_master get_data_def example_paths example_files example_base_def
      initial_state_def alloc_def Let_def)

lemma example_regional_after_base:
  "fst (pull example_env ''f.json'' (Some ''en-gb'')
          (snd (pull example_env ''f.json'' (Some ''en'') initial_state))) = Inr (Ref 3)"
  unfolding example_base_pull
  by (simp add: pull_def pull_body_def locale_arg_def example_lower example_supported
      example_master get_data_def example_paths example_files example_base_def
      example_region_def alloc_def update_dict_h_def update_items_h_dict
      update_items_h_nondict set_item_def Let_def)

section \<open>The claims\<close>

text \<open>
  Claim C1. Computing \<^verbatim>\<open>pull(F, "base-region")\<close> leaves the document of the base locale
  as it is: in every reachable state, after a call for a locale code has returned, the
  call for its base locale returns the cache entry of the base locale, and this value
  denotes the document parsed from the file of the base locale. When the base locale had
  an entry before the regional call, that same object is returned, from the cache. The
  merge works on objects that the regional call itself has loaded, so it changes no
  object of another entry.
\<close>

theorem pull_base_unaffected:
  assumes "reachable env s"
    and "pull env file (Some locale) s = (Inr v, s1)"
    and "lower base = master_of (lower locale)"
    and "lower base \<in> dom (supported_locales env)"
  shows "\<exists>w s2 doc. pull env file (Some base) s1 = (Inr w, s2)
           \<and> cache s2 (file, Some base) = Some w
           \<and> files env (file_path (data_root env) (lower base) file) = Inr doc
           \<and> repr (objs (heap s2)) w doc
           \<and> (\<forall>w0. cache s (file, Some base) = Some w0 \<longrightarrow> w = w0 \<and> s2 = s1)"
proof -
  have r1: "reachable env s1" using reachable_pull [OF assms(1,2)] .
  have c: "cache s1 (file, Some locale) = Some v"
    using assms(2) by (auto simp: pull_def split: option.splits prod.splits sum.splits)
  then obtain d where "spec_pull env file (lower locale) = Inr d"
    using reachable_cache_ok [OF r1] unfolding cache_ok_def locale_arg_def by fastforce
  then obtain doc where doc: "files env (file_path (data_root env) (lower base) file) = Inr doc"
    unfolding spec_pull_def assms(3) [symmetric] by (auto split: sum.splits)
  have nd: "CHR ''-'' \<notin> set (lower base)" "master_of (lower base) = lower base"
    unfolding assms(3) by simp_all
  have spec: "spec_pull env file (lower base) = Inr doc"
    using doc nd by (simp add: spec_pull_def)
  from pull_reachable [OF r1, of "file" "Some base"]
  obtain r s2 where p: "pull env file (Some base) s1 = (r, s2)"
    "pull_post env file (Some base) s1 r s2" by blast
  then obtain w where w: "r = Inr w" "cache s2 (file, Some base) = Some w"
    "repr (objs (heap s2)) w doc"
    using assms(4) spec by (auto simp: pull_post_def locale_arg_def)
  have "w = w0 \<and> s2 = s1" if "cache s (file, Some base) = Some w0" for w0
  proof -
    have "cache s1 (file, Some base) = Some w0"
      using pull_keeps_entries [OF assms(2) that] .
    then show ?thesis using p(1) w(1) by (simp add: pull_def)
  qed
  then show ?thesis using p(1) w doc by blast
qed

theorem pull_base_unaffected_witness:
  "pull example_env ''f.json'' (Some ''en'')
     (snd (pull example_env ''f.json'' (Some ''en-gb'')
        (snd (pull example_env ''f.json'' (Some ''en'') initial_state))))
   = (Inr (Ref 1),
      snd (pull example_env ''f.json'' (Some ''en-gb'')
        (snd (pull example_env ''f.json'' (Some ''en'') initial_state))))
   \<and> repr (objs (heap (snd (pull example_env ''f.json'' (Some ''en-gb'')
        (snd (pull example_env ''f.json'' (Some ''en'') initial_state)))))) (Ref 1) example_base"
proof -
  let ?s0 = "snd (pull example_env ''f.json'' (Some ''en'') initial_state)"
  let ?s1 = "snd (pull example_env ''f.json'' (Some ''en-gb'') ?s0)"
  have r0: "reachable example_env ?s0"
    by (rule reachable_pull [OF reachable_init]) (rule prod.collapse [symmetric])
  have p: "pull example_env ''f.json'' (Some ''en-gb'') ?s0 = (Inr (Ref 3), ?s1)"
    using example_regional_after_base by (simp add: prod_eq_iff)
  have b: "lower ''en'' = master_of (lower ''en-gb'')"
    by (simp add: example_lower example_master)
  have s: "lower ''en'' \<in> dom (supported_locales example_env)"
    by (simp add: example_lower example_supported)
  have c: "cache ?s0 (''f.json'', Some ''en'') = Some (Ref 1)"
    by (simp add: example_base_pull)
  from pull_base_unaffected [OF r0 p b s]
  obtain w s2 doc where
    "pull example_env ''f.json'' (Some ''en'') ?s1 = (Inr w, s2)"
    "files example_env (file_path (data_root example_env) (lower ''en'') ''f.json'') = Inr doc"
    "repr (objs (heap s2)) w doc"
    "\<forall>w0. cache ?s0 (''f.json'', Some ''en'') = Some w0 \<longrightarrow> w = w0 \<and> s2 = ?s1"
    by blast
  then show ?thesis
    using c by (simp add: example_lower example_paths example_files)
qed

text \<open>
  Claim C2. For a supported simple code, \<^verbatim>\<open>pull\<close> returns a value that denotes the
  document parsed from the file of that locale (the path is \<open>file_path\<close>, which lemma
  \<open>file_path_plain\<close> spells out); for a supported composite code it returns a value that
  denotes \<open>update_dict\<close> of the parsed base document and the parsed document of the code
  itself. When the specified document is an error, \<^verbatim>\<open>pull\<close> raises that error.
\<close>

theorem pull_returns_document:
  assumes "reachable env s" and "lower locale \<in> dom (supported_locales env)"
  shows "(CHR ''-'' \<notin> set locale \<longrightarrow>
           (\<forall>doc. files env (file_path (data_root env) (lower locale) file) = Inr doc \<longrightarrow>
              (\<exists>v s'. pull env file (Some locale) s = (Inr v, s') \<and> repr (objs (heap s')) v doc)))
       \<and> (CHR ''-'' \<in> set locale \<longrightarrow>
           (\<forall>base region merged.
              files env (file_path (data_root env) (master_of (lower locale)) file) = Inr base \<longrightarrow>
              files env (file_path (data_root env) (lower locale) file) = Inr region \<longrightarrow>
              update_dict base region = Inr merged \<longrightarrow>
              (\<exists>v s'. pull env file (Some locale) s = (Inr v, s') \<and> repr (objs (heap s')) v merged)))
       \<and> (\<forall>e. spec_pull env file (lower locale) = Inl e \<longrightarrow>
              (\<exists>s'. pull env file (Some locale) s = (Inl e, s')))"
proof -
  from pull_reachable [OF assms(1), of "file" "Some locale"]
  obtain r s' where p: "pull env file (Some locale) s = (r, s')"
    "pull_post env file (Some locale) s r s'" by blast
  have post: "case spec_pull env file (lower locale) of
      Inl e \<Rightarrow> r = Inl e
    | Inr doc \<Rightarrow> (\<exists>v. r = Inr v \<and> repr (objs (heap s')) v doc)"
    using p(2) assms(2) by (auto simp: pull_post_def locale_arg_def split: sum.splits)
  have simple: "\<exists>v s'. pull env file (Some locale) s = (Inr v, s') \<and> repr (objs (heap s')) v doc"
    if "CHR ''-'' \<notin> set locale"
      and "files env (file_path (data_root env) (lower locale) file) = Inr doc" for doc
  proof -
    have "spec_pull env file (lower locale) = Inr doc"
      using that by (simp add: spec_pull_def master_of_simple)
    then show ?thesis using post p(1) by auto
  qed
  have composite: "\<exists>v s'. pull env file (Some locale) s = (Inr v, s') \<and> repr (objs (heap s')) v merged"
    if "CHR ''-'' \<in> set locale"
      and "files env (file_path (data_root env) (master_of (lower locale)) file) = Inr base"
      and "files env (file_path (data_root env) (lower locale) file) = Inr region"
      and "update_dict base region = Inr merged" for base region merged
  proof -
    have "spec_pull env file (lower locale) = Inr merged"
      using that by (simp add: spec_pull_def)
    then show ?thesis using post p(1) by auto
  qed
  have failure: "\<exists>s'. pull env file (Some locale) s = (Inl e, s')"
    if "spec_pull env file (lower locale) = Inl e" for e
    using that post p(1) by auto
  show ?thesis using simple composite failure by blast
qed

theorem pull_returns_document_witness:
  "(\<exists>v s'. pull example_env ''f.json'' (Some ''en'') initial_state = (Inr v, s')
       \<and> repr (objs (heap s')) v example_base)
   \<and> (\<exists>v s'. pull example_env ''f.json'' (Some ''en-gb'') initial_state = (Inr v, s')
       \<and> repr (objs (heap s')) v (JDict [(''a'', JDict [(''b'', JNum 9), (''c'', JNum 2)])]))"
proof -
  have s: "lower ''en'' \<in> dom (supported_locales example_env)"
    "lower ''en-gb'' \<in> dom (supported_locales example_env)"
    by (simp_all add: example_lower example_supported)
  show ?thesis
    using pull_returns_document [OF reachable_init s(1), of "''f.json''"]
      pull_returns_document [OF reachable_init s(2), of "''f.json''"]
    by (simp add: example_lower example_master example_paths example_files example_merge)
qed

text \<open>
  Claim C3. \<^verbatim>\<open>pull\<close> is memoized: after a call that returned, the call with the same
  arguments returns the same object and leaves the whole state as it is, so it opens no
  file and merges nothing; in a reachable state that object denotes the specified
  document.
\<close>

theorem pull_memoized:
  assumes "pull env file locale s = (Inr v, s1)"
  shows "pull env file locale s1 = (Inr v, s1)
     \<and> opened (snd (pull env file locale s1)) = opened s1
     \<and> heap (snd (pull env file locale s1)) = heap s1
     \<and> (reachable env s \<longrightarrow>
          (\<exists>doc. spec_pull env file (lower (locale_arg locale)) = Inr doc
             \<and> repr (objs (heap s1)) v doc))"
proof -
  have c: "cache s1 (file, locale) = Some v"
    using assms by (auto simp: pull_def split: option.splits prod.splits sum.splits)
  then have again: "pull env file locale s1 = (Inr v, s1)" by (simp add: pull_def)
  have "\<exists>doc. spec_pull env file (lower (locale_arg locale)) = Inr doc
             \<and> repr (objs (heap s1)) v doc" if "reachable env s"
  proof -
    have "reachable env s1" using reachable_pull [OF that assms] .
    then show ?thesis using reachable_cache_ok c unfolding cache_ok_def by blast
  qed
  then show ?thesis using again by simp
qed

theorem pull_memoized_witness:
  "pull example_env ''f.json'' (Some ''en-gb'')
     (snd (pull example_env ''f.json'' (Some ''en-gb'') initial_state))
   = (Inr (Ref 1), snd (pull example_env ''f.json'' (Some ''en-gb'') initial_state))
   \<and> opened (snd (pull example_env ''f.json'' (Some ''en-gb'') initial_state))
     = [''/data/en/f.json'', ''/data/en-gb/f.json'']"
proof -
  have p: "pull example_env ''f.json'' (Some ''en-gb'') initial_state
      = (Inr (Ref 1), snd (pull example_env ''f.json'' (Some ''en-gb'') initial_state))"
    using example_regional_pull by (simp add: prod_eq_iff)
  have o: "opened (snd (pull example_env ''f.json'' (Some ''en-gb'') initial_state))
     = [''/data/en/f.json'', ''/data/en-gb/f.json'']"
    by (simp add: pull_def pull_body_def locale_arg_def example_lower example_supported
      example_master get_data_def example_paths example_files example_base_def
      example_region_def initial_state_def alloc_def update_dict_h_def update_items_h_dict
      update_items_h_nondict set_item_def Let_def)
  show ?thesis using pull_memoized [OF p] o by simp
qed




text \<open>
  Claim C5. The claim asks \<^verbatim>\<open>update_dict({"a": 1}, {"a": {"b": 2}})\<close> to return
  \<^verbatim>\<open>{"a": {"b": 2}}\<close>. The code passes the target value 1 to the recursive call, whose
  assignment \<^verbatim>\<open>initial[key] = other[key]\<close> raises TypeError on the integer.
\<close>

theorem update_dict_replace_fails:
  "update_dict (JDict [(''a'', JNum 1)]) (JDict [(''a'', JDict [(''b'', JNum 2)])])
   = Inl TypeError"
  by (simp add: update_dict_def update_items_dict update_items_not_dict dict_get_def)

text \<open>
  Claim C6. On a string of digits \<^verbatim>\<open>luhn_checksum\<close> returns the check digit the
  specification words (\<open>spec_checksum\<close>), one decimal digit; on \<^verbatim>\<open>7992739871\<close> it is
  \<^verbatim>\<open>3\<close>, and on a string of zeros it is \<^verbatim>\<open>0\<close>. Being a function of its argument
  alone, the result is determined by the argument.
\<close>

theorem luhn_checksum_correct:
  "(list_all is_digit num \<longrightarrow>
      luhn_checksum num = Inr (spec_checksum num)
      \<and> length (spec_checksum num) = 1
      \<and> list_all is_digit (spec_checksum num))
   \<and> luhn_checksum ''7992739871'' = Inr ''3''
   \<and> (set num \<subseteq> {CHR ''0''} \<longrightarrow> luhn_checksum num = Inr ''0'')"
proof -
  have a: "list_all is_digit num \<longrightarrow> luhn_checksum num = Inr (spec_checksum num)"
    using luhn_checksum_digits by blast
  have "nat (spec_luhn_sum num * 9 mod 10) < 10" by simp
  then have b: "list_all is_digit (spec_checksum num)"
    using is_digit_digit_char by (simp add: spec_checksum_def)
  have c: "luhn_checksum ''7992739871'' = Inr ''3''" by code_simp
  have d: "set num \<subseteq> {CHR ''0''} \<longrightarrow> luhn_checksum num = Inr ''0''"
    using luhn_checksum_digits [OF zeros_digits, of num] zeros_sum [of num]
    by (auto simp: spec_checksum_def digit_char_0)
  show ?thesis using a b c d by (simp add: spec_checksum_def)
qed

theorem luhn_checksum_correct_witness:
  "list_all is_digit ''0000''
   \<and> set ''0000'' \<subseteq> {CHR ''0''}
   \<and> luhn_checksum ''0000'' = Inr (spec_checksum ''0000'')
   \<and> luhn_checksum ''0000'' = Inr ''0''"
proof -
  have d: "list_all is_digit ''0000''" by code_simp
  have z: "set ''0000'' \<subseteq> {CHR ''0''}" by simp
  show ?thesis using luhn_checksum_correct [of "''0000''"] d z by blast
qed

text \<open>
  Claim C7. \<^verbatim>\<open>locale_info\<close> and \<^verbatim>\<open>pull\<close> lower-case the locale code and raise
  UnsupportedLocale exactly when the lower-cased code is not in the table of supported
  locales; codes that agree up to case get the same answer of \<^verbatim>\<open>locale_info\<close>.
\<close>

theorem unsupported_locale_raised:
  "((\<exists>msg. locale_info tbl l = Inl (UnsupportedLocale msg)) \<longleftrightarrow> lower l \<notin> dom tbl)
   \<and> (lower l = lower l' \<longrightarrow> locale_info tbl l = locale_info tbl l')
   \<and> locale_info tbl ''EN'' = locale_info tbl ''en''
   \<and> (''xx-impossible'' \<notin> dom tbl \<longrightarrow>
        locale_info tbl ''xx-impossible''
          = Inl (UnsupportedLocale ''Locale xx-impossible is not supported''))
   \<and> (reachable env s \<longrightarrow>
        ((\<exists>msg s'. pull env file locale s = (Inl (UnsupportedLocale msg), s'))
          \<longleftrightarrow> lower (locale_arg locale) \<notin> dom (supported_locales env)))"
proof -
  have a: "lower l = lower l' \<longrightarrow> locale_info tbl l = locale_info tbl l'"
    by (simp add: locale_info_def)
  have b: "locale_info tbl ''EN'' = locale_info tbl ''en''"
    by (simp add: locale_info_def lower_EN)
  have c: "''xx-impossible'' \<notin> dom tbl \<longrightarrow>
        locale_info tbl ''xx-impossible''
          = Inl (UnsupportedLocale ''Locale xx-impossible is not supported'')"
    by (auto simp: locale_info_def lower_EN unsupported_msg_def Let_def domIff)
  show ?thesis
    using locale_info_unsupported_iff [of tbl l] a b c pull_unsupported_iff [of env s "file" "locale"]
    by blast
qed

theorem unsupported_locale_raised_witness:
  "locale_info (supported_locales example_env) ''EN'' = Inr ''English''
   \<and> locale_info (supported_locales example_env) ''xx-impossible''
       = Inl (UnsupportedLocale ''Locale xx-impossible is not supported'')
   \<and> (\<exists>msg s'. pull example_env ''f.json'' (Some ''xx-impossible'') initial_state
         = (Inl (UnsupportedLocale msg), s'))"
proof -
  have e: "locale_info (supported_locales example_env) ''en'' = Inr ''English''"
    by (simp add: locale_info_def example_lower example_env_def)
  show ?thesis
    using unsupported_locale_raised [of "supported_locales example_env" "''EN''" "''en''"
        example_env initial_state "''f.json''" "Some ''xx-impossible''"]
      reachable_init [of example_env] e
    by (simp add: example_lower example_supported locale_arg_def)
qed

text \<open>
  Claim C8. \<^verbatim>\<open>check_gender\<close>, on the lower-cased string of its argument: the tokens
  1, m, male give male and 2, f, female give female; 0, 9, \<^verbatim>\<open>None\<close> and the default
  argument give the random choice, which is male or female; any other token raises
  UnexpectedGender with the sorted list of the tokens in its message.
\<close>

theorem check_gender_normalizes:
  "(g \<noteq> GNone \<and> lower (str_gender g) \<in> {''1'', ''m'', ''male''} \<longrightarrow>
       check_gender rnd g = Inr ''male'')
   \<and> (g \<noteq> GNone \<and> lower (str_gender g) \<in> {''2'', ''f'', ''female''} \<longrightarrow>
       check_gender rnd g = Inr ''female'')
   \<and> check_gender rnd (GStr ''M'') = Inr ''male''
   \<and> check_gender rnd (GStr ''f'') = Inr ''female''
   \<and> check_gender rnd (GStr ''male'') = Inr ''male''
   \<and> ((g = GNone \<or> lower (str_gender g) \<in> {''0'', ''9''}) \<longrightarrow>
       check_gender rnd g = Inr (choice2 rnd ''female'' ''male'')
       \<and> check_gender rnd g \<in> {Inr ''male'', Inr ''female''})
   \<and> check_gender_default rnd \<in> {Inr ''male'', Inr ''female''}
   \<and> (g \<noteq> GNone
       \<and> lower (str_gender g) \<notin> {''0'', ''9'', ''1'', ''2'', ''f'', ''m'', ''female'', ''male''} \<longrightarrow>
       check_gender rnd g
         = Inl (UnexpectedGender ''Gender must be 0, 1, 2, 9, f, female, m, male.''))
   \<and> check_gender rnd (GStr ''x'')
         = Inl (UnexpectedGender ''Gender must be 0, 1, 2, 9, f, female, m, male.'')"
proof -
  have male: "g \<noteq> GNone \<and> lower (str_gender g) \<in> {''1'', ''m'', ''male''} \<longrightarrow>
       check_gender rnd g = Inr ''male''"
    by (auto simp: check_gender_token Let_def)
  have female: "g \<noteq> GNone \<and> lower (str_gender g) \<in> {''2'', ''f'', ''female''} \<longrightarrow>
       check_gender rnd g = Inr ''female''"
    by (auto simp: check_gender_token Let_def)
  have ex: "check_gender rnd (GStr ''M'') = Inr ''male''"
    "check_gender rnd (GStr ''f'') = Inr ''female''"
    "check_gender rnd (GStr ''male'') = Inr ''male''"
    "check_gender rnd (GStr ''x'')
         = Inl (UnexpectedGender ''Gender must be 0, 1, 2, 9, f, female, m, male.'')"
    by (simp_all add: check_gender_token Let_def lower_tokens)
  have rand: "(g = GNone \<or> lower (str_gender g) \<in> {''0'', ''9''}) \<longrightarrow>
       check_gender rnd g = Inr (choice2 rnd ''female'' ''male'')
       \<and> check_gender rnd g \<in> {Inr ''male'', Inr ''female''}"
    by (cases "g = GNone") (auto simp: check_gender_token check_gender_None Let_def choice2_def)
  have dflt: "check_gender_default rnd \<in> {Inr ''male'', Inr ''female''}"
    by (simp add: check_gender_default_def check_gender_token Let_def str_int_0 lower_tokens
        choice2_def)
  have other: "g \<noteq> GNone
       \<and> lower (str_gender g) \<notin> {''0'', ''9'', ''1'', ''2'', ''f'', ''m'', ''female'', ''male''} \<longrightarrow>
       check_gender rnd g
         = Inl (UnexpectedGender ''Gender must be 0, 1, 2, 9, f, female, m, male.'')"
    by (auto simp: check_gender_token Let_def)
  show ?thesis using male female ex rand dflt other by blast
qed

theorem check_gender_normalizes_witness:
  "GInt 1 \<noteq> GNone \<and> lower (str_gender (GInt 1)) \<in> {''1'', ''m'', ''male''}
   \<and> check_gender True (GInt 1) = Inr ''male''"
proof -
  have s: "lower (str_gender (GInt 1)) = ''1''" by code_simp
  show ?thesis using check_gender_normalizes [of "GInt 1" True] s by simp
qed

text \<open>
  Claim C9. The claim asks \<^verbatim>\<open>download_image\<close> to return \<^verbatim>\<open>None\<close> without a transfer
  when the URL is empty or absent. The code tests \<^verbatim>\<open>url is not None\<close>, while the
  default of the argument is the empty string: for the empty URL, and for the call with
  no URL, it attempts the transfer of the empty URL and never returns \<^verbatim>\<open>None\<close>.
\<close>

theorem download_image_empty_url:
  "fst (download_image urlretrieve (Some []) save_path unverified_ctx s)
     = (case urlretrieve [] save_path of Inl e \<Rightarrow> Inl e | Inr u \<Rightarrow> Inr (Some []))
   \<and> transfers (snd (download_image urlretrieve (Some []) save_path unverified_ctx s))
     = transfers s @ [([], save_path)]
   \<and> fst (download_image urlretrieve (Some []) save_path unverified_ctx s) \<noteq> Inr None
   \<and> download_image_default urlretrieve s = download_image urlretrieve (Some []) [] False s"
  by (auto simp: download_image_def download_image_default_def last_segment_def Let_def
      split: sum.splits)

text \<open>
  Claim C10. On the empty string \<^verbatim>\<open>luhn_checksum\<close> does not fail and returns \<^verbatim>\<open>0\<close>.
\<close>

theorem luhn_checksum_empty: "luhn_checksum [] = Inr ''0''"
  by code_simp

section \<open>Further properties\<close>

text \<open>
  \<^verbatim>\<open>update_dict\<close> in place computes \<open>update_dict\<close> on documents: run on a value that
  denotes a document, it raises what \<open>update_dict\<close> returns as an error, or returns its
  first argument, which then denotes the merged document; of the objects that existed
  before, only those below the first argument may have changed.
\<close>

theorem update_dict_in_place:
  assumes "repr (objs h) initial ti" and "fp (objs h) initial ti \<subseteq> {..<next_addr h}"
  shows "\<exists>r h'. update_dict_h h initial other = (r, h')
     \<and> heap_frame h h' (fp (objs h) initial ti)
     \<and> (case update_dict ti other of
           Inl e \<Rightarrow> r = Inl e
         | Inr t' \<Rightarrow> r = Inr initial \<and> repr (objs h') initial t')"
proof -
  from update_dict_h_refines [OF assms, of other]
  obtain r h' where run: "update_dict_h h initial other = (r, h')"
    and fr: "heap_frame h h' (fp (objs h) initial ti)"
    and res: "case update_dict ti other of
           Inl e \<Rightarrow> r = Inl e
         | Inr t' \<Rightarrow> r = Inr initial \<and> repr (objs h') initial t'
             \<and> fp (objs h') initial t' \<subseteq> fp (objs h) initial ti \<union> {next_addr h..<next_addr h'}"
    by blast
  have "case update_dict ti other of
           Inl e \<Rightarrow> r = Inl e
         | Inr t' \<Rightarrow> r = Inr initial \<and> repr (objs h') initial t'"
    using res by (cases "update_dict ti other") simp_all
  then show ?thesis using run fr by blast
qed

theorem update_dict_in_place_witness:
  "repr (objs (snd (load_val (heap initial_state) example_base))) (Ref 1) example_base
   \<and> (\<exists>h'. update_dict_h (snd (load_val (heap initial_state) example_base)) (Ref 1) example_region
               = (Inr (Ref 1), h')
          \<and> repr (objs h') (Ref 1) (JDict [(''a'', JDict [(''b'', JNum 9), (''c'', JNum 2)])]))"
proof -
  let ?h = "snd (load_val (heap initial_state) example_base)"
  have l: "load_val (heap initial_state) example_base = (Ref 1, ?h)"
    by (simp add: example_base_def initial_state_def alloc_def prod_eq_iff)
  from load_ok(1) [OF l]
  have r: "repr (objs ?h) (Ref 1) example_base"
    and f: "fp (objs ?h) (Ref 1) example_base \<subseteq> {..<next_addr ?h}" by auto
  show ?thesis
    using update_dict_in_place [OF r f, of example_region] r
    by (auto simp: example_merge)
qed

text \<open>
  \<^verbatim>\<open>download_image\<close> returns \<^verbatim>\<open>None\<close> and attempts no transfer when the URL is
  \<^verbatim>\<open>None\<close>; when the transfer of a URL succeeds it returns the last segment of the
  URL, which is what follows the last slash.
\<close>

theorem download_image_result:
  "download_image urlretrieve None save_path False s = (Inr None, s)
   \<and> (urlretrieve url (save_path @ last_segment url) = Inr u \<longrightarrow>
        fst (download_image urlretrieve (Some url) save_path unverified_ctx s)
          = Inr (Some (last_segment url)))
   \<and> (CHR ''/'' \<notin> set name \<longrightarrow> last_segment (pre @ ''/'' @ name) = name)"
  using download_image_None download_image_name last_segment_after_slash by blast

theorem download_image_result_witness:
  "last_segment ''http://example.org/img/cat.png'' = ''cat.png''
   \<and> fst (download_image (\<lambda>u p. Inr ()) (Some ''http://example.org/img/cat.png'') ''/tmp/'' False
            \<lparr>unverified_context = False, transfers = []\<rparr>)
       = Inr (Some ''cat.png'')"
proof -
  have n: "CHR ''/'' \<notin> set ''cat.png''" by simp
  have "last_segment (''http://example.org/img'' @ ''/'' @ ''cat.png'') = ''cat.png''"
    using download_image_result [of "\<lambda>u p. Inr ()" "''/tmp/''"
        "\<lparr>unverified_context = False, transfers = []\<rparr>" "''http://example.org/img/cat.png''" "()" False
        "''cat.png''" "''http://example.org/img''"] n
    by blast
  then have s: "last_segment ''http://example.org/img/cat.png'' = ''cat.png''" by simp
  show ?thesis
    using download_image_result [of "\<lambda>u p. Inr ()" "''/tmp/''"
        "\<lparr>unverified_context = False, transfers = []\<rparr>" "''http://example.org/img/cat.png''" "()" False]
      s by simp
qed


end
